theory Spec2Isabelle
  imports Main "HOL-Library.Sublist"
begin

section \<open>JavaScript values and the operations the adapters apply to them\<close>

text \<open>
  The adapters receive duck-typed JSON: every field access in the source is written so
  that it works (or throws, or yields \<open>undefined\<close>) on any value. The model keeps that:
  a parsed payload is a \<open>jsv\<close>, numbers are integers (fractional numbers are outside the
  model), a string is a list of code units below 256, and an object is the list of its own
  properties.
\<close>

datatype jsv =
    Undefined
  | Null
  | Bool bool
  | Num int
  | Str string
  | Arr "jsv list"
  | Obj "(string \<times> jsv) list"

datatype js_error = JsError (name: string) (message: string)

text \<open>The parts of the JavaScript engine that the repository calls but does not define.\<close>

record js_engine =
  JSON_parse :: "string \<Rightarrow> jsv option"      \<comment> \<open>\<open>None\<close>: \<open>JSON.parse\<close> throws a SyntaxError\<close>
  ToNumber_positive :: "string \<Rightarrow> bool"      \<comment> \<open>whether \<open>ToNumber(s) > 0\<close> for a string \<open>s\<close>\<close>

fun truthy :: "jsv \<Rightarrow> bool" where
  "truthy Undefined = False"
| "truthy Null = False"
| "truthy (Bool b) = b"
| "truthy (Num n) = (n \<noteq> 0)"
| "truthy (Str s) = (s \<noteq> [])"
| "truthy (Arr xs) = True"
| "truthy (Obj kvs) = True"

fun isArray :: "jsv \<Rightarrow> bool" where
  "isArray (Arr xs) = True"
| "isArray v = False"

fun is_string :: "jsv \<Rightarrow> bool" where
  "is_string (Str s) = True"
| "is_string v = False"

fun show_nat :: "nat \<Rightarrow> string" where
  "show_nat n = (if n < 10 then [char_of (48 + n)]
                 else show_nat (n div 10) @ [char_of (48 + n mod 10)])"

definition show_int :: "int \<Rightarrow> string" where
  "show_int i = (if i < 0 then CHR ''-'' # show_nat (nat (- i)) else show_nat (nat i))"

fun join :: "string \<Rightarrow> string list \<Rightarrow> string" where
  "join sep [] = []"
| "join sep [x] = x"
| "join sep (x # y # ys) = x @ sep @ join sep (y # ys)"

text \<open>\<open>ToString\<close>, as string concatenation, template literals and \<open>new Error(v)\<close> apply it.\<close>

fun to_str :: "jsv \<Rightarrow> string" where
  "to_str Undefined = ''undefined''"
| "to_str Null = ''null''"
| "to_str (Bool b) = (if b then ''true'' else ''false'')"
| "to_str (Num n) = show_int n"
| "to_str (Str s) = s"
| "to_str (Arr xs) =
     join '','' (map (\<lambda>x. if x = Null \<or> x = Undefined then [] else to_str x) xs)"
| "to_str (Obj kvs) = ''[object Object]''"

definition type_error :: "jsv \<Rightarrow> string \<Rightarrow> js_error" where
  "type_error v k = JsError ''TypeError''
     (''Cannot read properties of '' @ to_str v @ '' (reading '' @ [CHR 0x27] @ k @ [CHR 0x27] @ '')'')"

text \<open>\<open>v.k\<close>: throws on \<open>null\<close> and \<open>undefined\<close>, and is \<open>undefined\<close> where \<open>v\<close> has no such property.\<close>

fun get_prop :: "jsv \<Rightarrow> string \<Rightarrow> js_error + jsv" where
  "get_prop Undefined k = Inl (type_error Undefined k)"
| "get_prop Null k = Inl (type_error Null k)"
| "get_prop (Obj kvs) k = Inr (case map_of kvs k of None \<Rightarrow> Undefined | Some v \<Rightarrow> v)"
| "get_prop (Arr xs) k = Inr (if k = ''length'' then Num (int (length xs)) else Undefined)"
| "get_prop (Str s) k = Inr (if k = ''length'' then Num (int (length s)) else Undefined)"
| "get_prop v k = Inr Undefined"

text \<open>\<open>v?.k\<close>: never throws.\<close>

definition opt_prop :: "jsv \<Rightarrow> string \<Rightarrow> jsv" where
  "opt_prop v k = (case get_prop v k of Inl e \<Rightarrow> Undefined | Inr x \<Rightarrow> x)"

text \<open>\<open>v?.[0]\<close> (and \<open>v[0]\<close> where \<open>v\<close> is known to be truthy).\<close>

fun index0 :: "jsv \<Rightarrow> jsv" where
  "index0 (Arr xs) = (case xs of [] \<Rightarrow> Undefined | x # _ \<Rightarrow> x)"
| "index0 (Str s) = (case s of [] \<Rightarrow> Undefined | c # _ \<Rightarrow> Str [c])"
| "index0 (Obj kvs) = (case map_of kvs ''0'' of None \<Rightarrow> Undefined | Some v \<Rightarrow> v)"
| "index0 v = Undefined"

text \<open>\<open>v > 0\<close>, with the engine's \<open>ToNumber\<close> for strings, arrays and objects.\<close>

fun gt_zero :: "js_engine \<Rightarrow> jsv \<Rightarrow> bool" where
  "gt_zero E (Num n) = (0 < n)"
| "gt_zero E (Bool b) = b"
| "gt_zero E Undefined = False"
| "gt_zero E Null = False"
| "gt_zero E v = ToNumber_positive E (to_str v)"

text \<open>The values a \<open>for (const x of v)\<close> loop visits; anything but an array or a string is not iterable.\<close>

fun iterate :: "jsv \<Rightarrow> js_error + jsv list" where
  "iterate (Arr xs) = Inr xs"
| "iterate (Str s) = Inr (map (\<lambda>c. Str [c]) s)"
| "iterate v = Inl (JsError ''TypeError'' (to_str v @ '' is not iterable''))"

section \<open>Strings: \<open>split\<close>, \<open>trim\<close>, \<open>startsWith\<close>, \<open>includes\<close>\<close>

definition newline :: char where
  "newline = CHR 0x0A"

text \<open>\<open>s.split('\n')\<close>: never empty; \<open>''.split('\n')\<close> is \<open>['']\<close>.\<close>

fun split_nl :: "string \<Rightarrow> string list" where
  "split_nl [] = [[]]"
| "split_nl (c # cs) =
     (let rest = split_nl cs
      in if c = newline then [] # rest else (c # hd rest) # tl rest)"

definition is_space :: "char \<Rightarrow> bool" where
  "is_space c = (c \<in> set [CHR 0x09, CHR 0x0A, CHR 0x0B, CHR 0x0C, CHR 0x0D, CHR 0x20, CHR 0xA0])"

definition trim :: "string \<Rightarrow> string" where
  "trim s = rev (dropWhile is_space (rev (dropWhile is_space s)))"

definition startsWith :: "string \<Rightarrow> string \<Rightarrow> bool" where
  "startsWith s p = prefix p s"

fun str_includes :: "string \<Rightarrow> string \<Rightarrow> bool" where
  "str_includes [] p = (p = [])"
| "str_includes (c # cs) p = (prefix p (c # cs) \<or> str_includes cs p)"

section \<open>The frame decoder: buffer, split on newline, keep the last fragment\<close>

text \<open>
  In each adapter's read loop:
  \<^verbatim>\<open>
  buffer += decoder.decode(value, { stream: true })
  const lines = buffer.split('\n')
  buffer = lines.pop() || ''
  \<close>
  A chunk is modelled by the text the streaming \<open>TextDecoder\<close> returns for it. The result
  is the list of complete lines and the new buffer.
\<close>

definition split_buffer :: "string \<Rightarrow> string \<Rightarrow> string list \<times> string" where
  "split_buffer buffer chunk =
     (let lines = split_nl (buffer @ chunk)
      in (butlast lines, if lines = [] then [] else last lines))"

text \<open>The decoder alone, over a sequence of chunks: all complete lines, in order, and the final buffer.\<close>

fun decode_chunks :: "string \<Rightarrow> string list \<Rightarrow> string list \<times> string" where
  "decode_chunks buffer [] = ([], buffer)"
| "decode_chunks buffer (chunk # chunks) =
     (let (lines, buffer') = split_buffer buffer chunk;
          (more, final) = decode_chunks buffer' chunks
      in (lines @ more, final))"

text \<open>The payload of a line, as every adapter extracts it: trim, then strip \<open>data: \<close>.\<close>

definition data_payload :: "string \<Rightarrow> string option" where
  "data_payload line =
     (let trimmedLine = trim line
      in if startsWith trimmedLine ''data: '' then Some (drop 6 trimmedLine) else None)"

definition data_payloads :: "string list \<Rightarrow> string list" where
  "data_payloads lines = List.map_filter data_payload lines"

section \<open>Sessions: callbacks, state and control flow\<close>

text \<open>
  A session records every callback invocation, in order. The first argument of \<open>onChunk\<close>
  and \<open>onReasoningChunk\<close> is whatever value the payload carried; the second is the
  accumulated string. Callbacks are taken to return normally.
\<close>

datatype event =
    OnChunk jsv string
  | OnReasoningChunk jsv string
  | OnReasoningComplete
  | OnComplete string
  | OnError string

text \<open>\<open>onChunk\<close>, \<open>onComplete\<close> and \<open>onError\<close> are always supplied; the other two may be missing.\<close>

record callbacks =
  onReasoningChunk_given :: bool
  onReasoningComplete_given :: bool

record session =
  fullContent :: string
  fullReasoning :: string
  reasoningDone :: bool
  completeCalled :: bool
  currentBlockType :: jsv
  calls :: "event list"

definition start :: session where
  "start = \<lparr>fullContent = [], fullReasoning = [], reasoningDone = False,
             completeCalled = False, currentBlockType = Null, calls = []\<rparr>"

text \<open>How a statement ends: normally, by \<open>break\<close>, by \<open>return\<close>, or by throwing.\<close>

datatype completion = Normal | Break | Return | Throw js_error

text \<open>\<open>fullReasoning += text; onReasoningChunk(text, fullReasoning)\<close>\<close>

definition reasoning_chunk :: "jsv \<Rightarrow> session \<Rightarrow> session" where
  "reasoning_chunk text s =
     s\<lparr>fullReasoning := fullReasoning s @ to_str text,
       calls := calls s @ [OnReasoningChunk text (fullReasoning s @ to_str text)]\<rparr>"

text \<open>\<open>onReasoningComplete(); reasoningDone = true\<close>\<close>

definition reasoning_complete :: "session \<Rightarrow> session" where
  "reasoning_complete s = s\<lparr>reasoningDone := True, calls := calls s @ [OnReasoningComplete]\<rparr>"

text \<open>\<open>fullContent += text; onChunk(text, fullContent)\<close>\<close>

definition content_chunk :: "jsv \<Rightarrow> session \<Rightarrow> session" where
  "content_chunk text s =
     s\<lparr>fullContent := fullContent s @ to_str text,
       calls := calls s @ [OnChunk text (fullContent s @ to_str text)]\<rparr>"

text \<open>
  \<open>if (fullReasoning && !reasoningDone && onReasoningComplete) { onReasoningComplete(); reasoningDone = true }\<close>,
  the transition each adapter makes before a content delta.
\<close>

definition close_reasoning :: "callbacks \<Rightarrow> session \<Rightarrow> session" where
  "close_reasoning cb s =
     (if fullReasoning s \<noteq> [] \<and> \<not> reasoningDone s \<and> onReasoningComplete_given cb
      then reasoning_complete s else s)"

text \<open>The inner \<open>try { ... } catch (parseError) { log }\<close>: the exception is dropped, the effects stay.\<close>

fun catch_and_log :: "completion \<times> session \<Rightarrow> completion \<times> session" where
  "catch_and_log (Throw e, s) = (Normal, s)"
| "catch_and_log (c, s) = (c, s)"

fun elements :: "jsv \<Rightarrow> jsv list" where
  "elements (Arr xs) = xs"
| "elements v = []"

section \<open>The OpenAI-compatible adapter\<close>

text \<open>
  \<open>src/unnamed/part_004\<close> holds two revisions of \<open>openAIAdapter.js\<close>; the model follows
  the later one, which has the reasoning and image paths.
\<close>

text \<open>
  \<open>delta.reasoning_details.filter(part => part.type === 'reasoning.text' && part.text).map(part => part.text)\<close>;
  a \<open>null\<close> element makes \<open>part.type\<close> throw.
\<close>

fun reasoning_parts :: "jsv list \<Rightarrow> js_error + jsv list" where
  "reasoning_parts [] = Inr []"
| "reasoning_parts (part # rest) =
     (case get_prop part ''type'' of
        Inl e \<Rightarrow> Inl e
      | Inr ty \<Rightarrow>
          (case reasoning_parts rest of
             Inl e \<Rightarrow> Inl e
           | Inr kept \<Rightarrow>
               Inr (if ty = Str ''reasoning.text'' \<and> truthy (opt_prop part ''text'')
                    then opt_prop part ''text'' # kept else kept)))"

definition openai_reasoning_text :: "jsv \<Rightarrow> js_error + jsv" where
  "openai_reasoning_text delta =
     (if truthy (opt_prop delta ''reasoning'') then Inr (opt_prop delta ''reasoning'')
      else if truthy (opt_prop delta ''reasoning_details'')
              \<and> isArray (opt_prop delta ''reasoning_details'')
      then (case reasoning_parts (elements (opt_prop delta ''reasoning_details'')) of
              Inl e \<Rightarrow> Inl e
            | Inr reasoningParts \<Rightarrow>
                Inr (if 0 < length reasoningParts
                     then Str (concat (map to_str reasoningParts)) else Null))
      else Inr Null)"

text \<open>The loop over an array-valued \<open>delta.content\<close> (multimodal parts).\<close>

fun content_images :: "jsv list \<Rightarrow> session \<Rightarrow> js_error option \<times> session" where
  "content_images [] s = (None, s)"
| "content_images (part # rest) s =
     (case get_prop part ''type'' of
        Inl e \<Rightarrow> (Some e, s)
      | Inr ty \<Rightarrow>
          (let url = opt_prop (opt_prop part ''image_url'') ''url''
           in if ty = Str ''image_url'' \<and> truthy url
              then content_images rest
                     (content_chunk
                        (Str ([newline] @ ''![Generated Image]('' @ to_str url @ '')'' @ [newline])) s)
              else content_images rest s))"

text \<open>The marker \<open>`\\n[GENERATED_IMAGE:${imageUrl}:END_IMAGE]\\n`\<close>.\<close>

definition image_marker :: "string \<Rightarrow> jsv" where
  "image_marker url = Str ([newline] @ ''[GENERATED_IMAGE:'' @ url @ '':END_IMAGE]'' @ [newline])"

text \<open>The loops over \<open>delta.images\<close> and \<open>message.images\<close>.\<close>

fun generated_images :: "jsv list \<Rightarrow> session \<Rightarrow> js_error option \<times> session" where
  "generated_images [] s = (None, s)"
| "generated_images (img # rest) s =
     (case get_prop img ''image_url'' of
        Inl e \<Rightarrow> (Some e, s)
      | Inr image_url \<Rightarrow>
          (let imageUrl = (if truthy (opt_prop image_url ''url'') then opt_prop image_url ''url''
                           else opt_prop img ''url'')
           in if truthy imageUrl
              then generated_images rest
                     (content_chunk (image_marker (to_str imageUrl)) s)
              else generated_images rest s))"

definition images_of :: "jsv \<Rightarrow> session \<Rightarrow> js_error option \<times> session" where
  "images_of images s =
     (if truthy images \<and> isArray images then generated_images (elements images) s else (None, s))"

text \<open>
  The statements on \<open>reasoningText\<close> and \<open>delta.content\<close>: the reasoning delta, the
  transition when content starts, the content delta.
\<close>

definition openai_text :: "callbacks \<Rightarrow> jsv \<Rightarrow> jsv \<Rightarrow> session \<Rightarrow> session" where
  "openai_text cb reasoningText content s =
     (let s1 = (if truthy reasoningText \<and> onReasoningChunk_given cb
                then reasoning_chunk reasoningText s else s);
          s2 = (if truthy content then close_reasoning cb s1 else s1)
      in if truthy content then content_chunk content s2 else s2)"

text \<open>
  The statements on images (array content, \<open>delta.images\<close>, \<open>message.images\<close>) and the
  final \<open>finish_reason\<close> check with its \<open>break\<close>.
\<close>

definition openai_media :: "jsv \<Rightarrow> jsv \<Rightarrow> session \<Rightarrow> completion \<times> session" where
  "openai_media choice delta s =
     (case (if isArray (opt_prop delta ''content'')
            then content_images (elements (opt_prop delta ''content'')) s else (None, s)) of
        (Some e, s4) \<Rightarrow> (Throw e, s4)
      | (None, s4) \<Rightarrow>
          (case images_of (opt_prop delta ''images'') s4 of
             (Some e, s5) \<Rightarrow> (Throw e, s5)
           | (None, s5) \<Rightarrow>
               (case images_of (opt_prop (opt_prop choice ''message'') ''images'') s5 of
                  (Some e, s6) \<Rightarrow> (Throw e, s6)
                | (None, s6) \<Rightarrow>
                    (if truthy (opt_prop choice ''finish_reason'')
                     then (Break, s6) else (Normal, s6)))))"

text \<open>What the adapter does with one parsed payload (the body of the inner \<open>try\<close> after \<open>JSON.parse\<close>).\<close>

definition openai_frame :: "callbacks \<Rightarrow> jsv \<Rightarrow> session \<Rightarrow> completion \<times> session" where
  "openai_frame cb parsed s =
     (case get_prop parsed ''choices'' of
        Inl e \<Rightarrow> (Throw e, s)
      | Inr choices \<Rightarrow>
          (let choice = index0 choices;
               delta = opt_prop choice ''delta''
           in case openai_reasoning_text delta of
                Inl e \<Rightarrow> (Throw e, s)
              | Inr reasoningText \<Rightarrow>
                  openai_media choice delta
                    (openai_text cb reasoningText (opt_prop delta ''content'') s)))"

definition syntax_error :: js_error where
  "syntax_error = JsError ''SyntaxError'' ''Unexpected token''"

text \<open>The body of \<open>for (const line of lines)\<close>.\<close>

definition openai_process_line ::
  "js_engine \<Rightarrow> callbacks \<Rightarrow> session \<Rightarrow> string \<Rightarrow> completion \<times> session" where
  "openai_process_line E cb s line =
     (let trimmedLine = trim line
      in if trimmedLine = [] \<or> startsWith trimmedLine '':'' then (Normal, s)
         else if startsWith trimmedLine ''data: ''
         then (let data = drop 6 trimmedLine
               in if data = ''[DONE]'' then (Normal, s)
                  else catch_and_log
                         (case JSON_parse E data of
                            None \<Rightarrow> (Throw syntax_error, s)
                          | Some parsed \<Rightarrow> openai_frame cb parsed s))
         else (Normal, s))"

section \<open>The read loop shared by the adapters\<close>

text \<open>
  One iteration of \<open>while (true)\<close>: the abort flag is read, the reader is awaited, the
  chunk's lines are processed, and the abort flag is read again. The transport is a
  script of such iterations; a script that runs out reports \<open>done\<close>.
\<close>

datatype read = Value string | Done | Rejects js_error

record read_step =
  aborted_before :: bool
  read_result :: read
  aborted_after :: bool

text \<open>
  \<open>for (const line of lines) { ... }\<close>: \<open>break\<close> leaves this loop only, \<open>return\<close> leaves the
  function.
\<close>

fun for_lines ::
  "(session \<Rightarrow> string \<Rightarrow> completion \<times> session) \<Rightarrow> session \<Rightarrow> string list \<Rightarrow> completion \<times> session"
where
  "for_lines body s [] = (Normal, s)"
| "for_lines body s (line # lines) =
     (case body s line of
        (Normal, s') \<Rightarrow> for_lines body s' lines
      | (Break, s') \<Rightarrow> (Normal, s')
      | (Return, s') \<Rightarrow> (Return, s')
      | (Throw e, s') \<Rightarrow> (Throw e, s'))"

fun read_loop ::
  "(session \<Rightarrow> string \<Rightarrow> completion \<times> session) \<Rightarrow> session \<Rightarrow> string \<Rightarrow> read_step list
     \<Rightarrow> completion \<times> session"
where
  "read_loop body s buffer [] = (Normal, s)"
| "read_loop body s buffer (step # steps) =
     (if aborted_before step then (Normal, s)
      else (case read_result step of
              Done \<Rightarrow> (Normal, s)
            | Rejects e \<Rightarrow> (Throw e, s)
            | Value chunk \<Rightarrow>
                (let (lines, buffer') = split_buffer buffer chunk
                 in case for_lines body s lines of
                      (Normal, s') \<Rightarrow>
                        (if aborted_after step then (Normal, s')
                         else read_loop body s' buffer' steps)
                    | (c, s') \<Rightarrow> (c, s'))))"

text \<open>After the loop: close the reasoning if it is open, then complete once.\<close>

definition complete_once :: "session \<Rightarrow> session" where
  "complete_once s =
     (if \<not> completeCalled s
      then s\<lparr>completeCalled := True, calls := calls s @ [OnComplete (fullContent s)]\<rparr>
      else s)"

definition after_loop :: "callbacks \<Rightarrow> session \<Rightarrow> session" where
  "after_loop cb s =
     complete_once
       (if fullReasoning s \<noteq> [] \<and> \<not> reasoningDone s \<and> onReasoningComplete_given cb
        then s\<lparr>calls := calls s @ [OnReasoningComplete]\<rparr> else s)"

text \<open>
  The outer \<open>catch (error)\<close>. An \<open>AbortError\<close> saves the reasoning and completes; anything
  else is reported through \<open>onError\<close>. The two message texts differ per adapter.
\<close>

definition on_abort :: "callbacks \<Rightarrow> session \<Rightarrow> session" where
  "on_abort cb s =
     complete_once
       (if 0 < length (fullReasoning s) \<and> \<not> reasoningDone s
        then s\<lparr>calls := calls s
                 @ (if onReasoningChunk_given cb then [OnReasoningChunk (Str []) (fullReasoning s)] else [])
                 @ (if onReasoningComplete_given cb then [OnReasoningComplete] else [])\<rparr>
        else s)"

definition wrapped_message :: "string \<Rightarrow> string \<Rightarrow> js_error \<Rightarrow> string" where
  "wrapped_message network_text syntax_text error =
     (if name error = ''TypeError'' \<and> str_includes (message error) ''fetch'' then network_text
      else if name error = ''SyntaxError'' then syntax_text
      else if message error = [] then ''An unexpected error occurred. Please try again.''
      else message error)"

definition catch_block :: "string \<Rightarrow> string \<Rightarrow> callbacks \<Rightarrow> js_error \<Rightarrow> session \<Rightarrow> session" where
  "catch_block network_text syntax_text cb error s =
     (if name error = ''AbortError'' then on_abort cb s
      else s\<lparr>calls := calls s @ [OnError (wrapped_message network_text syntax_text error)]\<rparr>)"

section \<open>Request, response and the non-2xx path\<close>

record request =
  apiKey :: jsv
  model :: jsv
  messages :: jsv
  baseUrl :: jsv

record response =
  ok :: bool
  status :: nat
  statusText :: string
  errorData :: jsv          \<comment> \<open>\<open>await response.json().catch(() => ({}))\<close>\<close>
  retry_after :: jsv        \<comment> \<open>\<open>response.headers.get('retry-after')\<close>: a string or \<open>null\<close>\<close>
  body :: "read_step list"

text \<open>
  Building the request body and awaiting \<open>fetch\<close> either throws (a message that is not an
  object, a network failure, an abort before the headers arrive) or yields the response.
\<close>

datatype connect = Throws js_error | Responds response

definition error_message_of :: "jsv \<Rightarrow> string \<Rightarrow> js_error + string" where
  "error_message_of data fallback =
     (case get_prop data ''error'' of
        Inl e \<Rightarrow> Inl e
      | Inr err \<Rightarrow> Inr (if truthy (opt_prop err ''message'') then to_str (opt_prop err ''message'')
                         else fallback))"

definition http_error_message :: "response \<Rightarrow> js_error + string" where
  "http_error_message r =
     (if status r = 429
      then Inr (''Rate limit exceeded.''
                @ (if truthy (retry_after r)
                   then '' Please wait '' @ to_str (retry_after r) @ '' seconds.'' else []))
      else if status r = 401
      then error_message_of (errorData r) ''Invalid API key or unauthorized access.''
      else if status r = 403
      then error_message_of (errorData r) ''Access forbidden. Check your API key permissions.''
      else if status r = 404
      then error_message_of (errorData r) ''Model or endpoint not found.''
      else if 500 \<le> status r
      then error_message_of (errorData r)
             (''Server error ('' @ show_nat (status r) @ ''). Please try again later.'')
      else error_message_of (errorData r)
             (''HTTP '' @ show_nat (status r) @ '': '' @ statusText r))"

text \<open>
  Everything inside the outer \<open>try\<close> once the request is validated: the non-2xx branch
  reports through \<open>onError\<close> and returns; otherwise the body is read and the session is
  completed.
\<close>

definition stream_response ::
  "(session \<Rightarrow> string \<Rightarrow> completion \<times> session) \<Rightarrow> callbacks \<Rightarrow> connect \<Rightarrow> session
     \<Rightarrow> completion \<times> session"
where
  "stream_response body_of_loop cb conn s =
     (case conn of
        Throws e \<Rightarrow> (Throw e, s)
      | Responds r \<Rightarrow>
          (if \<not> ok r
           then (case http_error_message r of
                   Inl e \<Rightarrow> (Throw e, s)
                 | Inr errorMessage \<Rightarrow> (Return, s\<lparr>calls := calls s @ [OnError errorMessage]\<rparr>))
           else (case read_loop body_of_loop s [] (body r) of
                   (Normal, s') \<Rightarrow> (Normal, after_loop cb s')
                 | (c, s') \<Rightarrow> (c, s'))))"

definition new_Error :: "string \<Rightarrow> js_error" where
  "new_Error m = JsError ''Error'' m"

text \<open>The three checks at the top of the \<open>try\<close>.\<close>

definition validate :: "request \<Rightarrow> js_error option" where
  "validate rq =
     (if \<not> truthy (apiKey rq) \<or> \<not> is_string (apiKey rq) then Some (new_Error ''Invalid API key'')
      else if \<not> truthy (model rq) \<or> \<not> is_string (model rq) then Some (new_Error ''Invalid model'')
      else if \<not> isArray (messages rq) \<or> length (elements (messages rq)) = 0
      then Some (new_Error ''Messages must be a non-empty array'')
      else None)"

text \<open>\<open>try { ... } catch (error) { ... }\<close> around a body that ran to \<open>(c, s)\<close>.\<close>

fun try_catch ::
  "(js_error \<Rightarrow> session \<Rightarrow> session) \<Rightarrow> completion \<times> session \<Rightarrow> session" where
  "try_catch handler (Throw e, s) = handler e s"
| "try_catch handler (c, s) = s"

definition openai_sendStreamingMessage ::
  "js_engine \<Rightarrow> callbacks \<Rightarrow> request \<Rightarrow> connect \<Rightarrow> session" where
  "openai_sendStreamingMessage E cb rq conn =
     try_catch
       (catch_block
          ''Network error: Unable to connect to the API. Please check your internet connection.''
          ''Invalid response from API. Please try again.'' cb)
       (case validate rq of
          Some e \<Rightarrow> (Throw e, start)
        | None \<Rightarrow>
            (if \<not> truthy (baseUrl rq) \<or> \<not> is_string (baseUrl rq)
             then (Throw (new_Error ''Invalid base URL''), start)
             else stream_response (openai_process_line E cb) cb conn start))"

section \<open>The Anthropic adapter\<close>

text \<open>\<open>case 'content_block_delta'\<close>: a text delta goes to the reasoning channel inside a thinking block
  when \<open>onReasoningChunk\<close> is supplied, and to the content otherwise.\<close>

definition content_block_delta :: "callbacks \<Rightarrow> jsv \<Rightarrow> session \<Rightarrow> session" where
  "content_block_delta cb parsed s =
     (let delta = opt_prop parsed ''delta''
      in if opt_prop delta ''type'' = Str ''text_delta'' \<and> truthy (opt_prop delta ''text'')
         then (if currentBlockType s = Str ''thinking'' \<and> onReasoningChunk_given cb
               then reasoning_chunk (opt_prop delta ''text'') s
               else content_chunk (opt_prop delta ''text'') (close_reasoning cb s))
         else s)"

text \<open>\<open>case 'content_block_stop'\<close>\<close>

definition content_block_stop :: "callbacks \<Rightarrow> session \<Rightarrow> session" where
  "content_block_stop cb s =
     (if currentBlockType s = Str ''thinking'' then close_reasoning cb s else s)
       \<lparr>currentBlockType := Null\<rparr>"

text \<open>\<open>case 'error'\<close>: \<open>onError(new Error(parsed.error?.message || 'Unknown error from Claude API'))\<close>\<close>

definition error_event :: "jsv \<Rightarrow> session \<Rightarrow> session" where
  "error_event parsed s =
     s\<lparr>calls := calls s
        @ [OnError (if truthy (opt_prop (opt_prop parsed ''error'') ''message'')
                    then to_str (opt_prop (opt_prop parsed ''error'') ''message'')
                    else ''Unknown error from Claude API'')]\<rparr>"

text \<open>The \<open>switch (parsed.type)\<close> inside the inner \<open>try\<close>; the \<open>error\<close> case returns from the function.\<close>

definition anthropic_frame :: "callbacks \<Rightarrow> jsv \<Rightarrow> session \<Rightarrow> completion \<times> session" where
  "anthropic_frame cb parsed s =
     (case get_prop parsed ''type'' of
        Inl e \<Rightarrow> (Throw e, s)
      | Inr ty \<Rightarrow>
          if ty = Str ''message_start'' then (Normal, s)
          else if ty = Str ''content_block_start''
          then (Normal, s\<lparr>currentBlockType := opt_prop (opt_prop parsed ''content_block'') ''type''\<rparr>)
          else if ty = Str ''content_block_delta'' then (Normal, content_block_delta cb parsed s)
          else if ty = Str ''content_block_stop'' then (Normal, content_block_stop cb s)
          else if ty = Str ''message_delta'' then (Normal, s)
          else if ty = Str ''message_stop'' then (Normal, s)
          else if ty = Str ''ping'' then (Normal, s)
          else if ty = Str ''error'' then (Return, error_event parsed s)
          else (Normal, s))"

definition anthropic_process_line ::
  "js_engine \<Rightarrow> callbacks \<Rightarrow> session \<Rightarrow> string \<Rightarrow> completion \<times> session" where
  "anthropic_process_line E cb s line =
     (let trimmedLine = trim line
      in if trimmedLine = [] \<or> startsWith trimmedLine '':'' then (Normal, s)
         else if startsWith trimmedLine ''event: '' then (Normal, s)
         else if startsWith trimmedLine ''data: ''
         then catch_and_log
                (case JSON_parse E (drop 6 trimmedLine) of
                   None \<Rightarrow> (Throw syntax_error, s)
                 | Some parsed \<Rightarrow> anthropic_frame cb parsed s)
         else (Normal, s))"

definition anthropic_sendStreamingMessage ::
  "js_engine \<Rightarrow> callbacks \<Rightarrow> request \<Rightarrow> connect \<Rightarrow> session" where
  "anthropic_sendStreamingMessage E cb rq conn =
     try_catch
       (catch_block
          ''Network error: Unable to connect to the Anthropic API. Please check your internet connection.''
          ''Invalid response from Anthropic API. Please try again.'' cb)
       (case validate rq of
          Some e \<Rightarrow> (Throw e, start)
        | None \<Rightarrow> stream_response (anthropic_process_line E cb) cb conn start)"

section \<open>The Gemini adapter\<close>

text \<open>
  \<open>src/unnamed/part_003\<close> holds two revisions of \<open>geminiAdapter.js\<close>; the model follows
  the later one, which reads \<open>thought\<close> parts.
\<close>

text \<open>\<open>for (const part of content.parts)\<close>: a thought goes to the reasoning channel, else a text to the content.\<close>

fun gemini_parts :: "callbacks \<Rightarrow> jsv list \<Rightarrow> session \<Rightarrow> js_error option \<times> session" where
  "gemini_parts cb [] s = (None, s)"
| "gemini_parts cb (part # rest) s =
     (case get_prop part ''thought'' of
        Inl e \<Rightarrow> (Some e, s)
      | Inr thought \<Rightarrow>
          if truthy thought \<and> onReasoningChunk_given cb
          then gemini_parts cb rest (reasoning_chunk thought s)
          else if truthy (opt_prop part ''text'')
          then gemini_parts cb rest (content_chunk (opt_prop part ''text'') (close_reasoning cb s))
          else gemini_parts cb rest s)"

definition gemini_candidates ::
  "js_engine \<Rightarrow> callbacks \<Rightarrow> jsv \<Rightarrow> session \<Rightarrow> js_error option \<times> session" where
  "gemini_candidates E cb candidates s =
     (if truthy candidates \<and> gt_zero E (opt_prop candidates ''length'')
      then (case get_prop (index0 candidates) ''content'' of
              Inl e \<Rightarrow> (Some e, s)
            | Inr content \<Rightarrow>
                if truthy content \<and> truthy (opt_prop content ''parts'')
                then (case iterate (opt_prop content ''parts'') of
                        Inl e \<Rightarrow> (Some e, s)
                      | Inr parts \<Rightarrow> gemini_parts cb parts s)
                else (None, s))
      else (None, s))"

text \<open>
  The body of the inner \<open>try\<close> after \<open>JSON.parse\<close>. The \<open>throw new Error(...)\<close> for a payload
  with an \<open>error\<close> field is inside that \<open>try\<close>.
\<close>

definition gemini_frame ::
  "js_engine \<Rightarrow> callbacks \<Rightarrow> jsv \<Rightarrow> session \<Rightarrow> completion \<times> session" where
  "gemini_frame E cb parsed s =
     (case get_prop parsed ''candidates'' of
        Inl e \<Rightarrow> (Throw e, s)
      | Inr candidates \<Rightarrow>
          (case gemini_candidates E cb candidates s of
             (Some e, s') \<Rightarrow> (Throw e, s')
           | (None, s') \<Rightarrow>
               if truthy (opt_prop parsed ''error'')
               then (Throw (new_Error
                              (if truthy (opt_prop (opt_prop parsed ''error'') ''message'')
                               then to_str (opt_prop (opt_prop parsed ''error'') ''message'')
                               else ''Unknown error from Gemini'')), s')
               else (Normal, s')))"

definition gemini_process_line ::
  "js_engine \<Rightarrow> callbacks \<Rightarrow> session \<Rightarrow> string \<Rightarrow> completion \<times> session" where
  "gemini_process_line E cb s line =
     (let trimmedLine = trim line
      in if trimmedLine = [] then (Normal, s)
         else if startsWith trimmedLine ''data: ''
         then catch_and_log
                (case JSON_parse E (drop 6 trimmedLine) of
                   None \<Rightarrow> (Throw syntax_error, s)
                 | Some parsed \<Rightarrow> gemini_frame E cb parsed s)
         else (Normal, s))"

definition gemini_sendStreamingMessage ::
  "js_engine \<Rightarrow> callbacks \<Rightarrow> request \<Rightarrow> connect \<Rightarrow> session" where
  "gemini_sendStreamingMessage E cb rq conn =
     try_catch
       (catch_block
          ''Network error: Unable to connect to Gemini API. Please check your internet connection.''
          ''Invalid response from Gemini API. Please try again.'' cb)
       (case validate rq of
          Some e \<Rightarrow> (Throw e, start)
        | None \<Rightarrow> stream_response (gemini_process_line E cb) cb conn start)"

section \<open>The router\<close>

definition PROVIDERS :: "(string \<times> string) list" where
  "PROVIDERS =
     [(''openrouter'', ''https://openrouter.ai/api/v1''),
      (''openai'', ''https://api.openai.com/v1''),
      (''gemini'', ''https://generativelanguage.googleapis.com/v1beta'')]"

text \<open>\<open>PROVIDERS.find(p => p.id === providerId)\<close>, keeping the two fields the router reads.\<close>

definition getProviderById :: "jsv \<Rightarrow> jsv" where
  "getProviderById providerId =
     (case find (\<lambda>p. Str (fst p) = providerId) PROVIDERS of
        None \<Rightarrow> Undefined
      | Some p \<Rightarrow> Obj [(''id'', Str (fst p)), (''apiBaseUrl'', Str (snd p))])"

definition strip_suffix :: "string \<Rightarrow> string \<Rightarrow> string" where
  "strip_suffix suf s = (if suffix suf s then take (length s - length suf) s else s)"

text \<open>
  \<open>apiBaseUrl.trim()\<close>, then \<open>.replace(/\/+$/, '')\<close> and \<open>.replace(/\/chat\/completions$/, '')\<close>;
  \<open>.trim\<close> is not a function on anything but a string.
\<close>

definition clean_base_url :: "jsv \<Rightarrow> js_error + string" where
  "clean_base_url apiBaseUrl =
     (case apiBaseUrl of
        Str u \<Rightarrow>
          Inr (strip_suffix ''/chat/completions''
                 (rev (dropWhile (\<lambda>c. c = CHR ''/'') (rev (trim u)))))
      | _ \<Rightarrow> Inl (JsError ''TypeError'' ''apiBaseUrl.trim is not a function''))"

record routing =
  providerId :: jsv
  providerConfig :: jsv

definition failed :: "string \<Rightarrow> session" where
  "failed m = start\<lparr>calls := [OnError m]\<rparr>"

text \<open>
  The final \<open>catch\<close> of the router. The adapters handle their own exceptions, so only the
  router's own statements can reach it.
\<close>

definition router_catch :: "js_error \<Rightarrow> session" where
  "router_catch e =
     failed (if name e = ''TypeError''
             then ''Configuration error: '' @ message e @ ''. Please check your provider settings.''
             else if message e = []
             then ''An unexpected error occurred while sending the message. Please try again.''
             else message e)"

definition no_reasoning_callbacks :: callbacks where
  "no_reasoning_callbacks = \<lparr>onReasoningChunk_given = False, onReasoningComplete_given = False\<rparr>"

definition route_custom ::
  "js_engine \<Rightarrow> callbacks \<Rightarrow> request \<Rightarrow> connect \<Rightarrow> jsv \<Rightarrow> session" where
  "route_custom E cb rq conn apiBaseUrl =
     (case clean_base_url apiBaseUrl of
        Inl e \<Rightarrow> router_catch e
      | Inr url \<Rightarrow> openai_sendStreamingMessage E cb (rq\<lparr>baseUrl := Str url\<rparr>) conn)"

text \<open>
  The router's \<open>sendStreamingMessage\<close>. The \<open>gemini\<close> case passes \<open>onChunk\<close>, \<open>onComplete\<close>,
  \<open>onError\<close> and the abort signal, and neither of the reasoning callbacks.
\<close>

definition sendStreamingMessage ::
  "js_engine \<Rightarrow> callbacks \<Rightarrow> routing \<Rightarrow> request \<Rightarrow> connect \<Rightarrow> session" where
  "sendStreamingMessage E cb rt rq conn =
     (if \<not> truthy (apiKey rq) then failed ''API key is required''
      else if \<not> truthy (model rq) then failed ''Model is required''
      else if \<not> truthy (messages rq) \<or> opt_prop (messages rq) ''length'' = Num 0
      then failed ''Messages are required''
      else if providerId rt = Str ''openai''
      then openai_sendStreamingMessage E cb (rq\<lparr>baseUrl := Str ''https://api.openai.com/v1''\<rparr>) conn
      else if providerId rt = Str ''openrouter''
      then openai_sendStreamingMessage E cb (rq\<lparr>baseUrl := Str ''https://openrouter.ai/api/v1''\<rparr>) conn
      else if providerId rt = Str ''gemini''
      then gemini_sendStreamingMessage E no_reasoning_callbacks rq conn
      else if providerId rt = Str ''anthropic''
      then anthropic_sendStreamingMessage E cb rq conn
      else if truthy (providerConfig rt) \<and> truthy (opt_prop (providerConfig rt) ''apiBaseUrl'')
      then route_custom E cb rq conn (opt_prop (providerConfig rt) ''apiBaseUrl'')
      else if truthy (getProviderById (providerId rt))
              \<and> truthy (opt_prop (getProviderById (providerId rt)) ''apiBaseUrl'')
      then route_custom E cb rq conn (opt_prop (getProviderById (providerId rt)) ''apiBaseUrl'')
      else failed (''Unknown provider: '' @ to_str (providerId rt)
                   @ ''. Please check your provider configuration.''))"

section \<open>Sample payloads\<close>

text \<open>
  \<open>JSON.parse\<close> on the payloads used in the examples below (and a SyntaxError on any
  other text), so that the adapters can be run on concrete streams.
\<close>

definition content_frame :: "string \<Rightarrow> jsv" where
  "content_frame t = Obj [(''choices'', Arr [Obj [(''delta'', Obj [(''content'', Str t)])]])]"

definition reasoning_frame :: "string \<Rightarrow> jsv" where
  "reasoning_frame t = Obj [(''choices'', Arr [Obj [(''delta'', Obj [(''reasoning'', Str t)])]])]"

definition finish_frame :: "string \<Rightarrow> jsv" where
  "finish_frame reason =
     Obj [(''choices'', Arr [Obj [(''delta'', Obj []), (''finish_reason'', Str reason)]])]"

definition block_start :: "string \<Rightarrow> jsv" where
  "block_start ty = Obj [(''type'', Str ''content_block_start''),
                         (''content_block'', Obj [(''type'', Str ty)])]"

definition text_delta :: "string \<Rightarrow> jsv" where
  "text_delta t = Obj [(''type'', Str ''content_block_delta''),
                       (''delta'', Obj [(''type'', Str ''text_delta''), (''text'', Str t)])]"

definition message_stop :: jsv where
  "message_stop = Obj [(''type'', Str ''message_stop'')]"

definition parts_frame :: "jsv list \<Rightarrow> jsv" where
  "parts_frame ps = Obj [(''candidates'', Arr [Obj [(''content'', Obj [(''parts'', Arr ps)])]])]"

definition text_part :: "string \<Rightarrow> jsv" where
  "text_part t = Obj [(''text'', Str t)]"

definition stop_frame :: jsv where
  "stop_frame = Obj [(''candidates'', Arr [Obj [(''finishReason'', Str ''STOP'')]])]"

definition sample_payloads :: "(string \<times> jsv) list" where
  "sample_payloads =
     [(''{\"choices\":[{\"delta\":{\"content\":\"Hi\"}}]}'', content_frame ''Hi''),
      (''{\"choices\":[{\"delta\":{\"content\":\" there\"}}]}'', content_frame '' there''),
      (''{\"choices\":[{\"delta\":{\"reasoning\":\"hmm\"}}]}'', reasoning_frame ''hmm''),
      (''{\"choices\":[{\"delta\":{},\"finish_reason\":\"stop\"}]}'', finish_frame ''stop''),
      (''{\"type\":\"content_block_start\",\"content_block\":{\"type\":\"thinking\"}}'',
         block_start ''thinking''),
      (''{\"type\":\"content_block_delta\",\"delta\":{\"type\":\"text_delta\",\"text\":\"Hi\"}}'',
         text_delta ''Hi''),
      (''{\"type\":\"content_block_delta\",\"delta\":{\"type\":\"text_delta\",\"text\":\" there\"}}'',
         text_delta '' there''),
      (''{\"type\":\"message_stop\"}'', message_stop),
      (''{\"type\":\"error\",\"error\":{\"message\":\"overloaded\"}}'',
         Obj [(''type'', Str ''error''), (''error'', Obj [(''message'', Str ''overloaded'')])]),
      (''{\"candidates\":[{\"content\":{\"parts\":[{\"text\":\"Hi\"}]}}]}'',
         parts_frame [text_part ''Hi'']),
      (''{\"candidates\":[{\"content\":{\"parts\":[{\"text\":\" there\"}]}}]}'',
         parts_frame [text_part '' there'']),
      (''{\"candidates\":[{\"content\":{\"parts\":[{\"thought\":\"plan\"}]}}]}'',
         parts_frame [Obj [(''thought'', Str ''plan'')]]),
      (''{\"candidates\":[{\"finishReason\":\"STOP\"}]}'', stop_frame),
      (''{\"error\":{\"message\":\"quota\"}}'', Obj [(''error'', Obj [(''message'', Str ''quota'')])])]"

definition sample_engine :: js_engine where
  "sample_engine = \<lparr>JSON_parse = map_of sample_payloads, ToNumber_positive = (\<lambda>s. False)\<rparr>"

definition both_callbacks :: callbacks where
  "both_callbacks = \<lparr>onReasoningChunk_given = True, onReasoningComplete_given = True\<rparr>"

definition sample_request :: request where
  "sample_request = \<lparr>apiKey = Str ''sk-1'', model = Str ''m'',
                      messages = Arr [Obj [(''role'', Str ''user''), (''content'', Str ''Hi'')]],
                      baseUrl = Str ''https://api.openai.com/v1''\<rparr>"

text \<open>An iteration of the read loop that delivers a chunk, with the abort flag down.\<close>

definition plain :: "string \<Rightarrow> read_step" where
  "plain chunk = \<lparr>aborted_before = False, read_result = Value chunk, aborted_after = False\<rparr>"

text \<open>A 200 response whose body follows the given script.\<close>

definition ok_response :: "read_step list \<Rightarrow> connect" where
  "ok_response steps =
     Responds \<lparr>ok = True, status = 200, statusText = ''OK'', errorData = Obj [],
               retry_after = Null, body = steps\<rparr>"

text \<open>The SSE text of a payload: \<open>data: <payload>\n\n\<close>.\<close>

definition sse :: "string \<Rightarrow> string" where
  "sse payload = ''data: '' @ payload @ [newline, newline]"

section \<open>Vocabulary for the proofs\<close>

text \<open>
  What a read loop can do to a session, one action at a time: deliver a reasoning delta
  (only with \<open>onReasoningChunk\<close> supplied), close the reasoning, deliver a content delta
  once the reasoning is closed (or cannot be closed), deliver an image marker, record the
  block type. Each adapter's line handler is shown to stay inside these actions.
\<close>

inductive reaches :: "callbacks \<Rightarrow> session \<Rightarrow> session \<Rightarrow> bool" for cb s where
  here: "reaches cb s s"
| reasoning: "reaches cb s t \<Longrightarrow> onReasoningChunk_given cb \<Longrightarrow> reaches cb s (reasoning_chunk v t)"
| closing: "reaches cb s t \<Longrightarrow> reaches cb s (close_reasoning cb t)"
| content: "reaches cb s t
     \<Longrightarrow> \<not> (fullReasoning t \<noteq> [] \<and> \<not> reasoningDone t \<and> onReasoningComplete_given cb)
     \<Longrightarrow> reaches cb s (content_chunk v t)"
| marker: "reaches cb s t \<Longrightarrow> reaches cb s (content_chunk (image_marker u) t)"
| block: "reaches cb s t \<Longrightarrow> reaches cb s (t\<lparr>currentBlockType := v\<rparr>)"

definition errored :: "session \<Rightarrow> session \<Rightarrow> bool" where
  "errored t r = (\<exists>m. r = t\<lparr>calls := calls t @ [OnError m]\<rparr>)"

definition sound :: "callbacks \<Rightarrow> session \<Rightarrow> session \<Rightarrow> completion \<times> session \<Rightarrow> bool" where
  "sound cb s0 s r =
     (reaches cb s0 (snd r) \<and> fst r \<noteq> Return \<or> fst r = Return \<and> errored s (snd r))"

definition refines :: "callbacks \<Rightarrow> (session \<Rightarrow> string \<Rightarrow> completion \<times> session) \<Rightarrow> bool" where
  "refines cb proc = (\<forall>s0 s line. reaches cb s0 s \<longrightarrow> sound cb s0 s (proc s line))"

definition ends :: "callbacks \<Rightarrow> session \<Rightarrow> session \<Rightarrow> bool" where
  "ends cb t r = (r = after_loop cb t \<or> r = on_abort cb t \<or> errored t r)"

fun is_terminal :: "event \<Rightarrow> bool" where
  "is_terminal (OnComplete t) = True"
| "is_terminal (OnError m) = True"
| "is_terminal e = False"

fun is_complete :: "event \<Rightarrow> bool" where
  "is_complete (OnComplete t) = True"
| "is_complete e = False"

fun is_error :: "event \<Rightarrow> bool" where
  "is_error (OnError m) = True"
| "is_error e = False"

definition terminals :: "event list \<Rightarrow> nat" where
  "terminals tr = length (filter is_terminal tr)"

text \<open>Exactly one terminal callback, and it is the last call of the session.\<close>

definition one_terminal :: "event list \<Rightarrow> bool" where
  "one_terminal tr = (terminals tr = 1 \<and> tr \<noteq> [] \<and> is_terminal (last tr))"

fun is_chunk :: "event \<Rightarrow> bool" where
  "is_chunk (OnChunk c a) = True"
| "is_chunk e = False"

text \<open>A reasoning delta that left the accumulated reasoning non-empty.\<close>

fun delivers_reasoning :: "event \<Rightarrow> bool" where
  "delivers_reasoning (OnReasoningChunk d acc) = (acc \<noteq> [])"
| "delivers_reasoning e = False"

definition has_reasoning :: "event list \<Rightarrow> bool" where
  "has_reasoning tr = list_ex delivers_reasoning tr"

definition closings :: "event list \<Rightarrow> nat" where
  "closings tr = length (filter (\<lambda>e. e = OnReasoningComplete) tr)"



text \<open>The calls that deliver the texts \<open>ts\<close> one by one on top of the content \<open>acc\<close>:
  each accumulated text is the previous one extended by the delta.\<close>

fun content_events :: "string \<Rightarrow> string list \<Rightarrow> event list" where
  "content_events acc [] = []"
| "content_events acc (t # ts) = OnChunk (Str t) (acc @ t) # content_events (acc @ t) ts"

text \<open>A synthetic stream is a list of payloads, each with the text it delivers, if any.\<close>

definition stream_of :: "(string \<times> string option) list \<Rightarrow> string" where
  "stream_of items = concat (map (\<lambda>it. sse (fst it)) items)"

definition texts_of :: "(string \<times> string option) list \<Rightarrow> string list" where
  "texts_of items = List.map_filter snd items"

text \<open>A payload as a stream carries it: on one line, and not changed by \<open>trim\<close>.\<close>

definition clean :: "string \<Rightarrow> bool" where
  "clean p = (p \<noteq> [] \<and> newline \<notin> set p \<and> \<not> is_space (last p))"

text \<open>A session in which no reasoning has been delivered and no block is open.\<close>

definition plain_content :: "session \<Rightarrow> bool" where
  "plain_content s = (fullReasoning s = [] \<and> currentBlockType s = Null)"

definition quiet_line :: "(session \<Rightarrow> string \<Rightarrow> completion \<times> session) \<Rightarrow> string \<Rightarrow> bool" where
  "quiet_line proc l = (\<forall>s. proc s l = (Normal, s))"

text \<open>A line that changes nothing and ends normally or by \<open>break\<close>.\<close>

definition idle :: "(session \<Rightarrow> string \<Rightarrow> completion \<times> session) \<Rightarrow> string \<Rightarrow> bool" where
  "idle proc l = (\<forall>s. proc s l = (Normal, s) \<or> proc s l = (Break, s))"

definition content_line ::
  "(session \<Rightarrow> string \<Rightarrow> completion \<times> session) \<Rightarrow> string \<Rightarrow> string \<Rightarrow> bool" where
  "content_line proc l t =
     (\<forall>s. plain_content s \<longrightarrow> proc s l = (Normal, content_chunk (Str t) s))"

definition item_line ::
  "(session \<Rightarrow> string \<Rightarrow> completion \<times> session) \<Rightarrow> string \<times> string option \<Rightarrow> bool" where
  "item_line proc it =
     (newline \<notin> set (fst it)
      \<and> (case snd it of
            None \<Rightarrow> quiet_line proc (''data: '' @ fst it)
          | Some t \<Rightarrow> content_line proc (''data: '' @ fst it) t))"

definition delivered :: "session \<Rightarrow> string list \<Rightarrow> session" where
  "delivered s ts =
     s\<lparr>fullContent := fullContent s @ concat ts,
       calls := calls s @ content_events (fullContent s) ts\<rparr>"

definition lines_of :: "(string \<times> string option) list \<Rightarrow> string list" where
  "lines_of items = concat (map (\<lambda>it. [''data: '' @ fst it, []]) items)"

text \<open>Lines that never leave the \<open>for\<close> loop and keep the session a plain content session.\<close>

definition benign :: "(session \<Rightarrow> string \<Rightarrow> completion \<times> session) \<Rightarrow> string \<Rightarrow> bool" where
  "benign proc l =
     (\<forall>s. plain_content s \<longrightarrow> fst (proc s l) = Normal \<and> plain_content (snd (proc s l)))"

text \<open>The items of a stream of content frames: each payload with the text it delivers.\<close>

definition frames :: "string list \<Rightarrow> string list \<Rightarrow> (string \<times> string option) list" where
  "frames payloads texts = map (\<lambda>(p, t). (p, Some t)) (zip payloads texts)"


text \<open>The delta text of a call: what an \<open>onChunk\<close> call adds to the content.\<close>

fun delta_text :: "event \<Rightarrow> string" where
  "delta_text (OnChunk c a) = to_str c"
| "delta_text e = []"

definition deltas :: "event list \<Rightarrow> string" where
  "deltas tr = concat (map delta_text tr)"

definition content_only_callbacks :: callbacks where
  "content_only_callbacks = \<lparr>onReasoningChunk_given = False, onReasoningComplete_given = True\<rparr>"

section \<open>Properties of the frame decoder\<close>

lemma split_nl_not_Nil: "split_nl s \<noteq> []"
  by (induction s) (auto simp: Let_def)

lemma split_nl_append:
  "split_nl (a @ b) = butlast (split_nl a) @ split_nl (last (split_nl a) @ b)"
proof (induction a)
  case Nil
  show ?case by simp
next
  case (Cons c a)
  show ?case
  proof (cases "c = newline")
    case True
    with Cons split_nl_not_Nil [of a] show ?thesis by (simp add: Let_def)
  next
    case False
    obtain x xs where A: "split_nl a = x # xs"
      using split_nl_not_Nil [of a] by (cases "split_nl a") auto
    show ?thesis
    proof (cases xs)
      case Nil
      with A Cons False show ?thesis by (simp add: Let_def)
    next
      case (Cons y ys)
      with A Cons.IH False show ?thesis by (simp add: Let_def)
    qed
  qed
qed

lemma split_buffer_eq:
  "split_buffer b c = (butlast (split_nl (b @ c)), last (split_nl (b @ c)))"
  by (simp add: split_buffer_def Let_def split_nl_not_Nil)

lemma split_nl_no_newline: "newline \<notin> set s \<Longrightarrow> split_nl s = [s]"
  by (induction s) (auto simp: Let_def)

lemma last_split_nl_no_newline: "newline \<notin> set (last (split_nl s))"
proof (induction s)
  case Nil
  show ?case by simp
next
  case (Cons c s)
  then show ?case
    using split_nl_not_Nil [of s]
    by (cases "split_nl s"; cases "tl (split_nl s)") (auto simp: Let_def)
qed

lemma decode_chunks_eq:
  "newline \<notin> set b \<Longrightarrow>
   decode_chunks b cs =
     (butlast (split_nl (b @ concat cs)), last (split_nl (b @ concat cs)))"
proof (induction cs arbitrary: b)
  case Nil
  then show ?case by (simp add: split_nl_no_newline)
next
  case (Cons c cs)
  let ?b' = "last (split_nl (b @ c))"
  have nl: "newline \<notin> set ?b'" by (rule last_split_nl_no_newline)
  have ne: "split_nl (?b' @ concat cs) \<noteq> []" by (rule split_nl_not_Nil)
  have "split_nl (b @ concat (c # cs)) =
          butlast (split_nl (b @ c)) @ split_nl (?b' @ concat cs)"
    using split_nl_append [of "b @ c" "concat cs"] by simp
  then show ?case
    using Cons.IH [OF nl] ne
    by (simp add: split_buffer_eq butlast_append)
qed

section \<open>The adapters stay inside the session actions\<close>

lemma close_reasoning_closed:
  "\<not> (fullReasoning (close_reasoning cb t) \<noteq> [] \<and> \<not> reasoningDone (close_reasoning cb t)
      \<and> onReasoningComplete_given cb)"
  by (simp add: close_reasoning_def reasoning_complete_def)

lemma reaches_close_content:
  "reaches cb s t \<Longrightarrow> reaches cb s (content_chunk v (close_reasoning cb t))"
  by (rule reaches.content [OF reaches.closing close_reasoning_closed])

lemma content_chunk_closed:
  "\<not> (fullReasoning t \<noteq> [] \<and> \<not> reasoningDone t \<and> onReasoningComplete_given cb)
   \<Longrightarrow> \<not> (fullReasoning (content_chunk v t) \<noteq> [] \<and> \<not> reasoningDone (content_chunk v t)
      \<and> onReasoningComplete_given cb)"
  by (simp add: content_chunk_def)

lemma content_images_reaches:
  "reaches cb s0 s
   \<Longrightarrow> \<not> (fullReasoning s \<noteq> [] \<and> \<not> reasoningDone s \<and> onReasoningComplete_given cb)
   \<Longrightarrow> content_images xs s = (r, s') \<Longrightarrow> reaches cb s0 s'"
proof (induction xs arbitrary: s)
  case Nil
  then show ?case by simp
next
  case (Cons x xs)
  show ?case
  proof (cases "get_prop x ''type''")
    case (Inl e)
    with Cons.prems show ?thesis by simp
  next
    case (Inr ty)
    let ?url = "opt_prop (opt_prop x ''image_url'') ''url''"
    let ?m = "Str ([newline] @ ''![Generated Image]('' @ to_str ?url @ '')'' @ [newline])"
    show ?thesis
    proof (cases "ty = Str ''image_url'' \<and> truthy ?url")
      case True
      have "content_images xs (content_chunk ?m s) = (r, s')"
        using Cons.prems(3) Inr True by (simp add: Let_def)
      moreover have "reaches cb s0 (content_chunk ?m s)"
        using Cons.prems(1,2) by (rule reaches.content)
      moreover note content_chunk_closed [OF Cons.prems(2)]
      ultimately show ?thesis by (rule Cons.IH [rotated 2])
    next
      case False
      then have "content_images xs s = (r, s')"
        using Cons.prems(3) Inr by (auto simp: Let_def)
      with Cons.prems(1,2) show ?thesis by (rule Cons.IH)
    qed
  qed
qed

lemma generated_images_reaches:
  "reaches cb s0 s \<Longrightarrow> generated_images xs s = (r, s') \<Longrightarrow> reaches cb s0 s'"
proof (induction xs arbitrary: s)
  case Nil
  then show ?case by simp
next
  case (Cons x xs)
  show ?case
  proof (cases "get_prop x ''image_url''")
    case (Inl e)
    with Cons.prems show ?thesis by simp
  next
    case (Inr iu)
    let ?u = "if truthy (opt_prop iu ''url'') then opt_prop iu ''url'' else opt_prop x ''url''"
    show ?thesis
    proof (cases "truthy ?u")
      case True
      have "generated_images xs (content_chunk (image_marker (to_str ?u)) s) = (r, s')"
        using Cons.prems(2) Inr True by (simp add: Let_def)
      moreover have "reaches cb s0 (content_chunk (image_marker (to_str ?u)) s)"
        using Cons.prems(1) by (rule reaches.marker)
      ultimately show ?thesis by (rule Cons.IH [rotated])
    next
      case False
      then have "generated_images xs s = (r, s')"
        using Cons.prems(2) Inr by (simp add: Let_def)
      with Cons.prems(1) show ?thesis by (rule Cons.IH)
    qed
  qed
qed

lemma images_of_reaches:
  "reaches cb s0 s \<Longrightarrow> images_of v s = (r, s') \<Longrightarrow> reaches cb s0 s'"
  by (auto simp: images_of_def split: if_splits intro: generated_images_reaches)

lemma gemini_parts_reaches:
  "reaches cb s0 s \<Longrightarrow> gemini_parts cb xs s = (r, s') \<Longrightarrow> reaches cb s0 s'"
proof (induction xs arbitrary: s)
  case Nil
  then show ?case by simp
next
  case (Cons x xs)
  show ?case
  proof (cases "get_prop x ''thought''")
    case (Inl e)
    with Cons.prems show ?thesis by simp
  next
    case (Inr th)
    consider (r) "truthy th \<and> onReasoningChunk_given cb"
      | (c) "\<not> (truthy th \<and> onReasoningChunk_given cb)" "truthy (opt_prop x ''text'')"
      | (n) "\<not> (truthy th \<and> onReasoningChunk_given cb)" "\<not> truthy (opt_prop x ''text'')"
      by blast
    then show ?thesis
    proof cases
      case r
      then have "gemini_parts cb xs (reasoning_chunk th s) = (r, s')"
        using Cons.prems(2) Inr by simp
      moreover have "reaches cb s0 (reasoning_chunk th s)"
        using Cons.prems(1) r by (auto intro: reaches.reasoning)
      ultimately show ?thesis by (rule Cons.IH [rotated])
    next
      case c
      then have "gemini_parts cb xs (content_chunk (opt_prop x ''text'') (close_reasoning cb s)) = (r, s')"
        using Cons.prems(2) Inr by auto
      moreover have "reaches cb s0 (content_chunk (opt_prop x ''text'') (close_reasoning cb s))"
        using Cons.prems(1) by (rule reaches_close_content)
      ultimately show ?thesis by (rule Cons.IH [rotated])
    next
      case n
      then have "gemini_parts cb xs s = (r, s')"
        using Cons.prems(2) Inr by auto
      with Cons.prems(1) show ?thesis by (rule Cons.IH)
    qed
  qed
qed

lemma openai_text_reaches:
  "reaches cb s0 s \<Longrightarrow> reaches cb s0 (openai_text cb rt content s)"
  by (auto simp: openai_text_def Let_def intro: reaches.reasoning reaches_close_content)

lemma openai_text_closed:
  "truthy content \<Longrightarrow>
   \<not> (fullReasoning (openai_text cb rt content s) \<noteq> []
      \<and> \<not> reasoningDone (openai_text cb rt content s) \<and> onReasoningComplete_given cb)"
  using close_reasoning_closed
  by (simp add: openai_text_def Let_def content_chunk_def)

lemma isArray_truthy: "isArray v \<Longrightarrow> truthy v"
  by (cases v) auto

lemma openai_media_reaches:
  assumes r: "reaches cb s0 s"
    and closed: "isArray (opt_prop delta ''content'')
       \<Longrightarrow> \<not> (fullReasoning s \<noteq> [] \<and> \<not> reasoningDone s \<and> onReasoningComplete_given cb)"
    and f: "openai_media choice delta s = (c, s')"
  shows "reaches cb s0 s' \<and> c \<noteq> Return"
proof -
  obtain e4 s4 where a4:
    "(if isArray (opt_prop delta ''content'')
      then content_images (elements (opt_prop delta ''content'')) s else (None, s)) = (e4, s4)"
    by fastforce
  have r4: "reaches cb s0 s4"
    using a4 r closed by (auto split: if_splits intro: content_images_reaches)
  obtain e5 s5 where a5: "images_of (opt_prop delta ''images'') s4 = (e5, s5)"
    by fastforce
  have r5: "reaches cb s0 s5" using r4 a5 by (rule images_of_reaches)
  obtain e6 s6 where a6:
    "images_of (opt_prop (opt_prop choice ''message'') ''images'') s5 = (e6, s6)"
    by fastforce
  have r6: "reaches cb s0 s6" using r5 a6 by (rule images_of_reaches)
  have "openai_media choice delta s =
          (case e4 of Some e \<Rightarrow> (Throw e, s4)
           | None \<Rightarrow> (case e5 of Some e \<Rightarrow> (Throw e, s5)
              | None \<Rightarrow> (case e6 of Some e \<Rightarrow> (Throw e, s6)
                 | None \<Rightarrow> (if truthy (opt_prop choice ''finish_reason'')
                             then (Break, s6) else (Normal, s6)))))"
    unfolding openai_media_def a4 by (simp add: a5 a6 split: option.splits)
  with f r4 r5 r6 show ?thesis
    by (auto split: option.splits if_splits)
qed

lemma sound_simps:
  "sound cb s0 s (Normal, t) = reaches cb s0 t"
  "sound cb s0 s (Break, t) = reaches cb s0 t"
  "sound cb s0 s (Throw e, t) = reaches cb s0 t"
  "sound cb s0 s (Return, t) = errored s t"
  by (simp_all add: sound_def)

lemma sound_catch_and_log: "sound cb s0 s r \<Longrightarrow> sound cb s0 s (catch_and_log r)"
  by (cases r; cases "fst r") (auto simp: sound_def)

lemma openai_frame_sound:
  assumes r: "reaches cb s0 s"
  shows "sound cb s0 s (openai_frame cb parsed s)"
proof (cases "get_prop parsed ''choices''")
  case (Inl e)
  with r show ?thesis by (simp add: openai_frame_def sound_simps)
next
  case choices: (Inr choices)
  let ?choice = "index0 choices"
  let ?delta = "opt_prop ?choice ''delta''"
  show ?thesis
  proof (cases "openai_reasoning_text ?delta")
    case (Inl e)
    with r choices show ?thesis by (simp add: openai_frame_def sound_simps)
  next
    case (Inr rt)
    let ?s3 = "openai_text cb rt (opt_prop ?delta ''content'') s"
    obtain c s' where m: "openai_media ?choice ?delta ?s3 = (c, s')" by fastforce
    have "reaches cb s0 ?s3" using r by (rule openai_text_reaches)
    then have "reaches cb s0 s' \<and> c \<noteq> Return"
      using openai_text_closed [OF isArray_truthy] m
      by (rule openai_media_reaches)
    then show ?thesis
      using choices Inr m by (simp add: openai_frame_def Let_def sound_def)
  qed
qed

lemma content_block_delta_reaches:
  "reaches cb s0 s \<Longrightarrow> reaches cb s0 (content_block_delta cb parsed s)"
  by (simp add: content_block_delta_def Let_def reaches.reasoning reaches_close_content)

lemma content_block_stop_reaches:
  "reaches cb s0 s \<Longrightarrow> reaches cb s0 (content_block_stop cb s)"
  by (simp add: content_block_stop_def reaches.block reaches.closing)

lemma error_event_errored: "errored s (error_event parsed s)"
  by (auto simp: errored_def error_event_def)

lemma anthropic_frame_sound:
  "reaches cb s0 s \<Longrightarrow> sound cb s0 s (anthropic_frame cb parsed s)"
  unfolding anthropic_frame_def
  by (simp add: sound_simps content_block_delta_reaches content_block_stop_reaches
        error_event_errored reaches.block split: sum.split)

lemma gemini_candidates_reaches:
  "reaches cb s0 s \<Longrightarrow> reaches cb s0 (snd (gemini_candidates E cb candidates s))"
  by (auto simp: gemini_candidates_def split: sum.splits
           intro: gemini_parts_reaches [OF _ prod.collapse [symmetric]])

lemma gemini_frame_sound:
  assumes r: "reaches cb s0 s"
  shows "sound cb s0 s (gemini_frame E cb parsed s)"
proof (cases "get_prop parsed ''candidates''")
  case (Inl e)
  with r show ?thesis by (simp add: gemini_frame_def sound_simps)
next
  case (Inr candidates)
  obtain e1 s1 where a: "gemini_candidates E cb candidates s = (e1, s1)" by fastforce
  have "reaches cb s0 s1"
    using gemini_candidates_reaches [OF r, of E candidates] a by simp
  with Inr a show ?thesis
    by (simp add: gemini_frame_def sound_simps split: option.split)
qed

lemma openai_refines: "refines cb (openai_process_line E cb)"
  unfolding refines_def openai_process_line_def Let_def
  by (auto simp: sound_simps intro!: sound_catch_and_log openai_frame_sound split: option.split)

lemma anthropic_refines: "refines cb (anthropic_process_line E cb)"
  unfolding refines_def anthropic_process_line_def Let_def
  by (auto simp: sound_simps intro!: sound_catch_and_log anthropic_frame_sound split: option.split)

lemma gemini_refines: "refines cb (gemini_process_line E cb)"
  unfolding refines_def gemini_process_line_def Let_def
  by (auto simp: sound_simps intro!: sound_catch_and_log gemini_frame_sound split: option.split)

lemma for_lines_reaches:
  assumes b: "refines cb proc"
  shows "reaches cb s0 s \<Longrightarrow> for_lines proc s ls = (c, s')
     \<Longrightarrow> ((c = Normal \<or> (\<exists>e. c = Throw e)) \<and> reaches cb s0 s')
         \<or> (c = Return \<and> (\<exists>t. reaches cb s0 t \<and> errored t s'))"
proof (induction ls arbitrary: s)
  case Nil
  then show ?case by simp
next
  case (Cons l ls)
  obtain c1 s1 where p: "proc s l = (c1, s1)" by fastforce
  from b Cons.prems(1) have "sound cb s0 s (proc s l)"
    unfolding refines_def by blast
  with p
  have d: "(c1 \<noteq> Return \<and> reaches cb s0 s1) \<or> (c1 = Return \<and> errored s s1)"
    by (auto simp: sound_def)
  show ?case
  proof (cases c1)
    case Normal
    with d Cons.prems(2) p have "reaches cb s0 s1" "for_lines proc s1 ls = (c, s')" by auto
    then show ?thesis by (rule Cons.IH)
  next
    case Break
    with d Cons.prems(2) p show ?thesis by auto
  next
    case Return
    with d Cons.prems p show ?thesis by auto
  next
    case (Throw e)
    with d Cons.prems p show ?thesis by auto
  qed
qed

lemma read_loop_reaches:
  assumes b: "refines cb proc"
  shows "reaches cb s0 s \<Longrightarrow> read_loop proc s buf steps = (c, s')
     \<Longrightarrow> ((c = Normal \<or> (\<exists>e. c = Throw e)) \<and> reaches cb s0 s')
         \<or> (c = Return \<and> (\<exists>t. reaches cb s0 t \<and> errored t s'))"
proof (induction steps arbitrary: s buf)
  case Nil
  then show ?case by simp
next
  case (Cons st steps)
  show ?case
  proof (cases "aborted_before st")
    case True
    with Cons.prems show ?thesis by simp
  next
    case False
    show ?thesis
    proof (cases "read_result st")
      case Done
      with False Cons.prems show ?thesis by simp
    next
      case (Rejects e)
      with False Cons.prems show ?thesis by auto
    next
      case (Value chunk)
      obtain ls buf' where sb: "split_buffer buf chunk = (ls, buf')" by fastforce
      obtain c1 s1 where fl: "for_lines proc s ls = (c1, s1)" by fastforce
      from for_lines_reaches [OF b Cons.prems(1) fl]
      have d: "((c1 = Normal \<or> (\<exists>e. c1 = Throw e)) \<and> reaches cb s0 s1)
               \<or> (c1 = Return \<and> (\<exists>t. reaches cb s0 t \<and> errored t s1))" .
      show ?thesis
      proof (cases "c1 = Normal \<and> \<not> aborted_after st")
        case True
        with d Cons.prems(2) False Value sb fl
        have "reaches cb s0 s1" "read_loop proc s1 buf' steps = (c, s')" by auto
        then show ?thesis by (rule Cons.IH)
      next
        case no: False
        with d Cons.prems(2) False Value sb fl show ?thesis by auto
      qed
    qed
  qed
qed

lemma catch_block_ends: "ends cb t (catch_block n1 n2 cb e t)"
  by (auto simp: ends_def catch_block_def errored_def)

lemma stream_shape:
  assumes b: "refines cb proc"
  shows "\<exists>t. reaches cb start t
           \<and> ends cb t (try_catch (catch_block n1 n2 cb) (stream_response proc cb conn start))"
proof (cases conn)
  case (Throws e)
  then show ?thesis
    using catch_block_ends reaches.here by (fastforce simp: stream_response_def)
next
  case (Responds r)
  show ?thesis
  proof (cases "ok r")
    case False
    with Responds show ?thesis
      using catch_block_ends [of cb start] reaches.here [of cb start]
      by (cases "http_error_message r")
         (auto simp: stream_response_def ends_def errored_def intro!: exI [of _ start])
  next
    case True
    obtain c s' where rl: "read_loop proc start [] (response.body r) = (c, s')" by fastforce
    from read_loop_reaches [OF b reaches.here rl]
    have d: "((c = Normal \<or> (\<exists>e. c = Throw e)) \<and> reaches cb start s')
         \<or> (c = Return \<and> (\<exists>t. reaches cb start t \<and> errored t s'))" .
    show ?thesis
    proof (cases c)
      case Normal
      with d Responds True rl show ?thesis
        by (auto simp: stream_response_def ends_def intro!: exI [of _ s'])
    next
      case Break
      with d show ?thesis by simp
    next
      case Return
      with d Responds True rl show ?thesis
        by (auto simp: stream_response_def ends_def)
    next
      case (Throw e)
      with d Responds True rl show ?thesis
        using catch_block_ends [of cb s']
        by (auto simp: stream_response_def intro!: exI [of _ s'])
    qed
  qed
qed

lemma thrown_shape:
  "\<exists>t. reaches cb start t \<and> ends cb t (try_catch (catch_block n1 n2 cb) (Throw e, start))"
  using catch_block_ends [of cb start] reaches.here [of cb start] by auto

lemma openai_shape:
  "\<exists>t. reaches cb start t \<and> ends cb t (openai_sendStreamingMessage E cb rq conn)"
  unfolding openai_sendStreamingMessage_def
  using thrown_shape stream_shape [OF openai_refines]
  by (auto split: option.splits)



section \<open>C1: exactly one terminal callback\<close>

lemma terminals_append [simp]: "terminals (xs @ ys) = terminals xs + terminals ys"
  by (simp add: terminals_def)

lemma terminals_simps [simp]:
  "terminals [] = 0"
  "terminals (e # tr) = (if is_terminal e then 1 else 0) + terminals tr"
  by (simp_all add: terminals_def)

lemma reaches_quiet:
  "reaches cb s0 t \<Longrightarrow>
     completeCalled t = completeCalled s0 \<and> terminals (calls t) = terminals (calls s0)"
  by (induction rule: reaches.induct)
     (simp_all add: reasoning_chunk_def close_reasoning_def reasoning_complete_def
        content_chunk_def)

lemma after_loop_calls:
  "\<not> completeCalled t \<Longrightarrow>
   calls (after_loop cb t) =
     calls t
     @ (if fullReasoning t \<noteq> [] \<and> \<not> reasoningDone t \<and> onReasoningComplete_given cb
        then [OnReasoningComplete] else [])
     @ [OnComplete (fullContent t)]"
  by (simp add: after_loop_def complete_once_def)

lemma on_abort_calls:
  "\<not> completeCalled t \<Longrightarrow>
   calls (on_abort cb t) =
     calls t
     @ (if fullReasoning t \<noteq> [] \<and> \<not> reasoningDone t
        then (if onReasoningChunk_given cb then [OnReasoningChunk (Str []) (fullReasoning t)] else [])
             @ (if onReasoningComplete_given cb then [OnReasoningComplete] else [])
        else [])
     @ [OnComplete (fullContent t)]"
  by (simp add: on_abort_def complete_once_def)

lemma start_simps [simp]:
  "calls start = []" "completeCalled start = False" "fullReasoning start = []"
  "fullContent start = []" "reasoningDone start = False" "currentBlockType start = Null"
  by (simp_all add: start_def)

lemma ends_one_terminal:
  assumes r: "reaches cb start t" and e: "ends cb t r"
  shows "one_terminal (calls r)"
proof -
  from reaches_quiet [OF r] have q: "\<not> completeCalled t" "terminals (calls t) = 0" by simp_all
  from e consider "r = after_loop cb t" | "r = on_abort cb t" | "errored t r"
    unfolding ends_def by blast
  then show ?thesis
  proof cases
    case 1
    with q show ?thesis by (simp add: after_loop_calls one_terminal_def)
  next
    case 2
    with q show ?thesis by (simp add: on_abort_calls one_terminal_def)
  next
    case 3
    with q show ?thesis by (auto simp: errored_def one_terminal_def)
  qed
qed

lemma openai_one_terminal: "one_terminal (calls (openai_sendStreamingMessage E cb rq conn))"
  using openai_shape [of cb E rq conn] ends_one_terminal by blast






lemma one_terminal_complete_or_error:
  "one_terminal tr \<Longrightarrow>
     length (filter is_complete tr) + length (filter is_error tr) = 1"
proof -
  have "length (filter is_complete tr) + length (filter is_error tr) = terminals tr"
  proof (induction tr)
    case Nil
    show ?case by simp
  next
    case (Cons e tr)
    then show ?case by (cases e) simp_all
  qed
  then show "one_terminal tr \<Longrightarrow> ?thesis" by (simp add: one_terminal_def)
qed



section \<open>C8: the frame decoder does not depend on chunk boundaries\<close>

text \<open>
  C8. However the payload text is cut into chunks, feeding the chunks one after the other
  through the buffer-and-split loop yields the same complete lines, in the same order, and
  the same retained fragment as feeding the whole text as one chunk: the lines are all
  but the last piece of the text split at newlines, and the buffer is the last piece.
  The \<open>data:\<close> payloads, being computed line by line, are the same as well.
\<close>

theorem C8_decoder_chunk_boundary_invariant:
  "decode_chunks [] chunks = decode_chunks [] [concat chunks]
   \<and> fst (decode_chunks [] chunks) = butlast (split_nl (concat chunks))
   \<and> snd (decode_chunks [] chunks) = last (split_nl (concat chunks))
   \<and> data_payloads (fst (decode_chunks [] chunks))
       = data_payloads (fst (decode_chunks [] [concat chunks]))"
proof -
  have a: "decode_chunks [] chunks
             = (butlast (split_nl (concat chunks)), last (split_nl (concat chunks)))"
    using decode_chunks_eq [of "[]" chunks] by simp
  have b: "decode_chunks [] [concat chunks]
             = (butlast (split_nl (concat chunks)), last (split_nl (concat chunks)))"
    using decode_chunks_eq [of "[]" "[concat chunks]"] by simp
  show ?thesis unfolding a b by simp
qed

theorem C8_decoder_witness:
  "decode_chunks [] [''data: a'' @ [newline] @ ''da'', ''ta: b'', [newline] @ ''x'']
     = ([''data: a'', ''data: b''], ''x'')"
proof -
  let ?cs = "[''data: a'' @ [newline] @ ''da'', ''ta: b'', [newline] @ ''x'']"
  have c: "concat ?cs = ''data: a'' @ [newline] @ ''data: b'' @ [newline] @ ''x''"
    by simp
  have w: "decode_chunks [] [concat ?cs] = ([''data: a'', ''data: b''], ''x'')"
    unfolding c by code_simp
  have "decode_chunks [] ?cs = decode_chunks [] [concat ?cs]"
    using C8_decoder_chunk_boundary_invariant [of ?cs] by (rule conjunct1)
  with w show ?thesis by (simp only:)
qed

section \<open>C4 and C2: the end-of-stream marker, and the order of reasoning and content\<close>

lemma terminals_0_no_complete: "terminals tr = 0 \<Longrightarrow> filter is_complete tr = []"
proof (induction tr)
  case Nil
  show ?case by simp
next
  case (Cons e tr)
  then show ?case by (cases e) (simp_all split: if_splits)
qed

lemma one_terminal_butlast: "one_terminal tr \<Longrightarrow> filter is_complete (butlast tr) = []"
proof -
  assume o: "one_terminal tr"
  then have "tr = butlast tr @ [last tr]" by (simp add: one_terminal_def)
  then have "terminals tr = terminals (butlast tr) + terminals [last tr]"
    by (metis terminals_append)
  with o have "terminals (butlast tr) = 0" by (auto simp: one_terminal_def)
  then show ?thesis by (rule terminals_0_no_complete)
qed

lemma openai_done_line:
  "trim line = ''data: [DONE]'' \<Longrightarrow> openai_process_line E cb s line = (Normal, s)"
  by (simp add: openai_process_line_def startsWith_def)

lemma read_loop_no_complete:
  assumes b: "refines cb proc"
  shows "filter is_complete (calls (snd (read_loop proc start [] steps))) = []"
proof -
  obtain c s' where rl: "read_loop proc start [] steps = (c, s')" by fastforce
  from read_loop_reaches [OF b reaches.here rl]
  consider "reaches cb start s'" | t where "reaches cb start t" "errored t s'" by blast
  then have "filter is_complete (calls s') = []"
  proof cases
    case 1
    from reaches_quiet [OF 1] show ?thesis by (simp add: terminals_0_no_complete)
  next
    case 2
    from reaches_quiet [OF 2(1)] 2(2) show ?thesis
      by (auto simp: errored_def terminals_0_no_complete)
  qed
  with rl show ?thesis by simp
qed

text \<open>
  C4 (as amended). In the OpenAI-compatible adapter a line whose payload is \<open>[DONE]\<close> is
  skipped: whatever \<open>JSON.parse\<close> would do with it, no callback is called and the session
  is unchanged, and the loop goes on with the next line. \<open>onComplete\<close> is never called
  by the read loop; in a whole session it can only be the last call.
\<close>

theorem C4_done_line_is_skipped:
  "(trim line = ''data: [DONE]'' \<longrightarrow> openai_process_line E cb s line = (Normal, s))
   \<and> filter is_complete (calls (snd (read_loop (openai_process_line E cb) start [] steps))) = []
   \<and> filter is_complete (butlast (calls (openai_sendStreamingMessage E cb rq conn))) = []"
  using openai_done_line [of line E cb s]
    read_loop_no_complete [OF openai_refines [of cb E], of steps]
    one_terminal_butlast [OF openai_one_terminal, of E cb rq conn]
  by blast

lemma trim_done: "trim ''data: [DONE]'' = ''data: [DONE]''"
  by code_simp

theorem C4_done_line_witness:
  "openai_process_line sample_engine both_callbacks start ''data: [DONE]'' = (Normal, start)
   \<and> filter is_complete
       (calls (snd (read_loop (openai_process_line sample_engine both_callbacks) start []
                      [plain (sse ''[DONE]'')]))) = []"
  using C4_done_line_is_skipped
          [of "''data: [DONE]''" sample_engine both_callbacks start "[plain (sse ''[DONE]'')]"]
        trim_done
  by blast

lemma has_reasoning_append [simp]:
  "has_reasoning (xs @ ys) = (has_reasoning xs \<or> has_reasoning ys)"
  by (simp add: has_reasoning_def)

lemma has_reasoning_simps [simp]:
  "has_reasoning [] = False"
  "has_reasoning (e # tr) = (delivers_reasoning e \<or> has_reasoning tr)"
  by (simp_all add: has_reasoning_def)

lemma closings_append [simp]: "closings (xs @ ys) = closings xs + closings ys"
  by (simp add: closings_def)

lemma closings_simps [simp]:
  "closings [] = 0"
  "closings (e # tr) = (if e = OnReasoningComplete then 1 else 0) + closings tr"
  by (simp_all add: closings_def)















text \<open>
  The claim as stated fails on a chunk that holds a content frame after the \<open>[DONE]\<close> frame:
  the later line is parsed and its content is delivered.
\<close>

theorem C4_done_counterexample:
  "calls (openai_sendStreamingMessage sample_engine both_callbacks sample_request
            (ok_response
               [plain (sse ''[DONE]'' @ sse ''{\"choices\":[{\"delta\":{\"content\":\"Hi\"}}]}'')]))
     = [OnChunk (Str ''Hi'') ''Hi'', OnComplete ''Hi'']"
  by code_simp

section \<open>C5 and C6: an error frame that is swallowed, and reasoning callbacks that are not passed on\<close>

text \<open>
  C5 (a defect of the Gemini adapter). A Gemini payload with an \<open>error\<close> field makes the
  adapter throw inside the inner \<open>try\<close>, whose \<open>catch\<close> only logs: \<open>onError\<close> is not called
  and the session completes as if nothing had happened. (The Anthropic adapter reports
  its \<open>error\<close> frame; the OpenAI-compatible adapter looks for no error frame at all.)
\<close>

theorem C5_gemini_error_frame_not_reported:
  "calls (gemini_sendStreamingMessage sample_engine both_callbacks sample_request
            (ok_response [plain (sse ''{\"error\":{\"message\":\"quota\"}}'')]))
     = [OnComplete []]"
  by code_simp

theorem C5_gemini_error_frame_witness:
  "filter is_error
     (calls (gemini_sendStreamingMessage sample_engine both_callbacks sample_request
               (ok_response [plain (sse ''{\"error\":{\"message\":\"quota\"}}'')])))
     = []"
  by (simp only: C5_gemini_error_frame_not_reported filter.simps is_error.simps if_False)

lemma anthropic_error_frame_reported:
  "calls (anthropic_sendStreamingMessage sample_engine both_callbacks sample_request
            (ok_response
               [plain (sse ''{\"type\":\"error\",\"error\":{\"message\":\"overloaded\"}}''
                       @ sse ''{\"type\":\"content_block_delta\",\"delta\":{\"type\":\"text_delta\",\"text\":\"Hi\"}}'')]))
     = [OnError ''overloaded'']"
  by code_simp

text \<open>
  C6 (a defect of the router). The router's \<open>gemini\<close> case does not pass
  \<open>onReasoningChunk\<close> and \<open>onReasoningComplete\<close> on, so in a routed session a part with a
  \<open>thought\<close> is never delivered to the reasoning channel; the adapter called with both
  callbacks delivers it.
\<close>

theorem C6_router_drops_gemini_thought:
  "calls (sendStreamingMessage sample_engine both_callbacks
            \<lparr>providerId = Str ''gemini'', providerConfig = Null\<rparr> sample_request
            (ok_response
               [plain (sse ''{\"candidates\":[{\"content\":{\"parts\":[{\"thought\":\"plan\"}]}}]}''
                       @ sse ''{\"candidates\":[{\"content\":{\"parts\":[{\"text\":\"Hi\"}]}}]}'')]))
     = [OnChunk (Str ''Hi'') ''Hi'', OnComplete ''Hi'']
   \<and> calls (gemini_sendStreamingMessage sample_engine both_callbacks sample_request
            (ok_response
               [plain (sse ''{\"candidates\":[{\"content\":{\"parts\":[{\"thought\":\"plan\"}]}}]}''
                       @ sse ''{\"candidates\":[{\"content\":{\"parts\":[{\"text\":\"Hi\"}]}}]}'')]))
     = [OnReasoningChunk (Str ''plan'') ''plan'', OnReasoningComplete,
        OnChunk (Str ''Hi'') ''Hi'', OnComplete ''Hi'']"
  by code_simp

theorem C6_router_witness:
  "has_reasoning
     (calls (sendStreamingMessage sample_engine both_callbacks
               \<lparr>providerId = Str ''gemini'', providerConfig = Null\<rparr> sample_request
               (ok_response
                  [plain (sse ''{\"candidates\":[{\"content\":{\"parts\":[{\"thought\":\"plan\"}]}}]}''
                          @ sse ''{\"candidates\":[{\"content\":{\"parts\":[{\"text\":\"Hi\"}]}}]}'')])))
     = False"
  by (simp add: C6_router_drops_gemini_thought)

section \<open>C7: cancellation\<close>

lemma plain_simps [simp]:
  "aborted_before (plain c) = False" "read_result (plain c) = Value c"
  "aborted_after (plain c) = False"
  by (simp_all add: plain_def)

lemma snd_decode_chunks_Cons:
  "snd (decode_chunks buf (c # cs)) = snd (decode_chunks (snd (split_buffer buf c)) cs)"
  by (simp add: split_beta Let_def)

lemma read_loop_plain_append:
  "read_loop proc s buf (map plain cs @ rest) =
     (case read_loop proc s buf (map plain cs) of
        (Normal, s') \<Rightarrow> read_loop proc s' (snd (decode_chunks buf cs)) rest
      | r \<Rightarrow> r)"
proof (induction cs arbitrary: s buf)
  case Nil
  show ?case by simp
next
  case (Cons c cs)
  obtain ls buf' where sb: "split_buffer buf c = (ls, buf')" by fastforce
  obtain c1 s1 where fl: "for_lines proc s ls = (c1, s1)" by fastforce
  show ?case
  proof (cases c1)
    case Normal
    have "snd (decode_chunks buf (c # cs)) = snd (decode_chunks buf' cs)"
      using sb by (simp add: snd_decode_chunks_Cons del: decode_chunks.simps)
    with Normal sb fl Cons.IH [of s1 buf'] show ?thesis
      by (simp add: split_beta del: decode_chunks.simps cong: completion.case_cong)
  qed (use sb fl in \<open>simp_all\<close>)
qed

lemma ok_response_simps [simp]:
  "stream_response proc cb (ok_response steps) s =
     (case read_loop proc s [] steps of
        (Normal, s') \<Rightarrow> (Normal, after_loop cb s')
      | (c, s') \<Rightarrow> (c, s'))"
  by (simp add: stream_response_def ok_response_def)

lemma read_loop_keeps_open:
  assumes b: "refines cb proc" and rl: "read_loop proc start [] steps = (Normal, s)"
  shows "\<not> completeCalled s \<and> filter is_terminal (calls s) = []"
proof -
  from read_loop_reaches [OF b reaches.here rl] have "reaches cb start s" by auto
  from reaches_quiet [OF this] show ?thesis by (simp add: terminals_def)
qed

text \<open>What a cancelled session calls once the state \<open>s\<close> has been reached: through the abort
  flag, and through an \<open>AbortError\<close> of the pending read.\<close>

lemma cancelled_by_flag:
  assumes b: "refines cb proc"
    and before: "read_loop proc start [] (map plain chunks) = (Normal, s)"
    and flag: "aborted_before step"
  shows "calls (try_catch (catch_block n1 n2 cb)
                  (stream_response proc cb (ok_response (map plain chunks @ step # rest)) start))
         = calls s
           @ (if fullReasoning s \<noteq> [] \<and> \<not> reasoningDone s \<and> onReasoningComplete_given cb
              then [OnReasoningComplete] else [])
           @ [OnComplete (fullContent s)]"
  using read_loop_keeps_open [OF b before] before flag
  by (simp add: read_loop_plain_append after_loop_calls)

lemma cancelled_by_abort_error:
  assumes b: "refines cb proc"
    and before: "read_loop proc start [] (map plain chunks) = (Normal, s)"
    and rejects: "\<not> aborted_before step" "read_result step = Rejects e" "name e = ''AbortError''"
  shows "calls (try_catch (catch_block n1 n2 cb)
                  (stream_response proc cb (ok_response (map plain chunks @ step # rest)) start))
         = calls s
           @ (if fullReasoning s \<noteq> [] \<and> \<not> reasoningDone s
              then (if onReasoningChunk_given cb
                    then [OnReasoningChunk (Str []) (fullReasoning s)] else [])
                   @ (if onReasoningComplete_given cb then [OnReasoningComplete] else [])
              else [])
           @ [OnComplete (fullContent s)]"
  using read_loop_keeps_open [OF b before] before rejects
  by (simp add: read_loop_plain_append catch_block_def on_abort_calls)

text \<open>The abort flag seen after a chunk is the abort flag seen before the next read.\<close>

lemma aborted_after_is_aborted_before:
  "read_loop proc s buf (step\<lparr>aborted_after := True\<rparr> # rest) =
   read_loop proc s buf
     (step\<lparr>aborted_after := False\<rparr>
      # \<lparr>aborted_before = True, read_result = Done, aborted_after = False\<rparr> # rest')"
  by (cases "read_result step")
     (auto split: prod.splits completion.splits)

lemma terminal_free_no_error: "filter is_terminal tr = [] \<Longrightarrow> filter is_error tr = []"
  by (auto simp: filter_empty_conv elim!: is_error.elims)

lemma cancelled_session:
  assumes b: "refines cb proc"
    and before: "read_loop proc start [] (map plain chunks) = (Normal, s)"
    and cancelled: "aborted_before step \<or> read_result step = Rejects e \<and> name e = ''AbortError''"
    and tr: "tr = calls (try_catch (catch_block n1 n2 cb)
                  (stream_response proc cb (ok_response (map plain chunks @ step # rest)) start))"
  shows "tr = calls s
           @ (if fullReasoning s \<noteq> [] \<and> \<not> reasoningDone s
              then (if \<not> aborted_before step \<and> onReasoningChunk_given cb
                    then [OnReasoningChunk (Str []) (fullReasoning s)] else [])
                   @ (if onReasoningComplete_given cb then [OnReasoningComplete] else [])
              else [])
           @ [OnComplete (fullContent s)]
         \<and> filter is_error tr = []"
proof (cases "aborted_before step")
  case True
  from read_loop_keeps_open [OF b before] True show ?thesis
    unfolding tr cancelled_by_flag [OF b before True]
    by (simp add: terminal_free_no_error)
next
  case False
  with cancelled have r: "read_result step = Rejects e" "name e = ''AbortError''" by simp_all
  from read_loop_keeps_open [OF b before] False show ?thesis
    unfolding tr cancelled_by_abort_error [OF b before False r]
    by (simp add: terminal_free_no_error)
qed

lemma read_loop_same_after_prefix:
  assumes "\<And>s buf. read_loop proc s buf xs = read_loop proc s buf ys"
  shows "read_loop proc s buf (pre @ xs) = read_loop proc s buf (pre @ ys)"
proof (induction pre arbitrary: s buf)
  case Nil
  show ?case by (simp add: assms)
next
  case (Cons st pre)
  show ?case
    by (cases "read_result st")
       (simp_all add: Cons.IH split: prod.splits completion.splits)
qed

lemma flag_after_chunk:
  "read_loop proc s buf (pre @ (plain c)\<lparr>aborted_after := True\<rparr> # rest)
   = read_loop proc s buf
       (pre @ plain c # \<lparr>aborted_before = True, read_result = Done, aborted_after = False\<rparr> # rest')"
  by (rule read_loop_same_after_prefix)
     (auto simp: plain_def split: prod.splits completion.splits)

lemma stream_response_flag_after_chunk:
  "stream_response proc cb
     (ok_response (pre @ (plain c)\<lparr>aborted_after := True\<rparr> # rest)) s
   = stream_response proc cb
       (ok_response
          (pre @ plain c
           # \<lparr>aborted_before = True, read_result = Done, aborted_after = False\<rparr> # rest')) s"
  by (simp add: flag_after_chunk [of proc s "[]" pre c rest rest'])

text \<open>
  C7 (as amended). A session that has read some chunks (reaching the state \<open>s\<close>) and is
  then cancelled never calls \<open>onError\<close> and ends with \<open>onComplete\<close> on the content
  accumulated so far. If reasoning has accumulated and is not marked complete: when the
  cancellation surfaces as an \<open>AbortError\<close> of the pending read, the adapter first calls
  \<open>onReasoningChunk('', fullReasoning)\<close> and then \<open>onReasoningComplete\<close> (each if
  supplied); when the cancellation is seen through the abort flag, it calls
  \<open>onReasoningComplete\<close> only. The abort flag seen after a chunk has been processed
  gives the same session as the flag seen before the next read.
\<close>

theorem C7_cancellation_completes:
  assumes "(send, proc) = (openai_sendStreamingMessage E cb, openai_process_line E cb)
         \<or> (send, proc) = (anthropic_sendStreamingMessage E cb, anthropic_process_line E cb)
         \<or> (send, proc) = (gemini_sendStreamingMessage E cb, gemini_process_line E cb)"
    and "validate rq = None" and "truthy (baseUrl rq) \<and> is_string (baseUrl rq)"
    and "read_loop proc start [] (map plain chunks) = (Normal, s)"
    and "aborted_before step \<or> read_result step = Rejects e \<and> name e = ''AbortError''"
  shows "calls (send rq (ok_response (map plain chunks @ step # rest)))
         = calls s
           @ (if fullReasoning s \<noteq> [] \<and> \<not> reasoningDone s
              then (if \<not> aborted_before step \<and> onReasoningChunk_given cb
                    then [OnReasoningChunk (Str []) (fullReasoning s)] else [])
                   @ (if onReasoningComplete_given cb then [OnReasoningComplete] else [])
              else [])
           @ [OnComplete (fullContent s)]
         \<and> filter is_error (calls (send rq (ok_response (map plain chunks @ step # rest)))) = []
         \<and> send rq (ok_response (pre @ (plain c)\<lparr>aborted_after := True\<rparr> # rest))
           = send rq (ok_response
                        (pre @ plain c
                         # \<lparr>aborted_before = True, read_result = Done, aborted_after = False\<rparr>
                         # rest'))"
proof -
  from assms(1) consider
      (openai) "send = openai_sendStreamingMessage E cb" "proc = openai_process_line E cb"
    | (anthropic) "send = anthropic_sendStreamingMessage E cb" "proc = anthropic_process_line E cb"
    | (gemini) "send = gemini_sendStreamingMessage E cb" "proc = gemini_process_line E cb"
    by auto
  then show ?thesis
  proof cases
    case openai
    have "send rq (ok_response (pre @ (plain c)\<lparr>aborted_after := True\<rparr> # rest))
           = send rq (ok_response
                        (pre @ plain c
                         # \<lparr>aborted_before = True, read_result = Done, aborted_after = False\<rparr>
                         # rest'))"
      unfolding openai(1) openai_sendStreamingMessage_def
      by (simp only: stream_response_flag_after_chunk [of _ _ pre c rest _ rest'])
    moreover note
      cancelled_session [OF openai_refines assms(4) [unfolded openai(2)] assms(5),
        of "calls (send rq (ok_response (map plain chunks @ step # rest)))" _ _ rest]
    ultimately show ?thesis
      by (simp add: openai openai_sendStreamingMessage_def assms(2,3))
  next
    case anthropic
    have "send rq (ok_response (pre @ (plain c)\<lparr>aborted_after := True\<rparr> # rest))
           = send rq (ok_response
                        (pre @ plain c
                         # \<lparr>aborted_before = True, read_result = Done, aborted_after = False\<rparr>
                         # rest'))"
      unfolding anthropic(1) anthropic_sendStreamingMessage_def
      by (simp only: stream_response_flag_after_chunk [of _ _ pre c rest _ rest'])
    moreover note
      cancelled_session [OF anthropic_refines assms(4) [unfolded anthropic(2)] assms(5),
        of "calls (send rq (ok_response (map plain chunks @ step # rest)))" _ _ rest]
    ultimately show ?thesis
      by (simp add: anthropic anthropic_sendStreamingMessage_def assms(2))
  next
    case gemini
    have "send rq (ok_response (pre @ (plain c)\<lparr>aborted_after := True\<rparr> # rest))
           = send rq (ok_response
                        (pre @ plain c
                         # \<lparr>aborted_before = True, read_result = Done, aborted_after = False\<rparr>
                         # rest'))"
      unfolding gemini(1) gemini_sendStreamingMessage_def
      by (simp only: stream_response_flag_after_chunk [of _ _ pre c rest _ rest'])
    moreover note
      cancelled_session [OF gemini_refines assms(4) [unfolded gemini(2)] assms(5),
        of "calls (send rq (ok_response (map plain chunks @ step # rest)))" _ _ rest]
    ultimately show ?thesis
      by (simp add: gemini gemini_sendStreamingMessage_def assms(2))
  qed
qed

lemma sample_request_valid:
  "validate sample_request = None"
  "truthy (baseUrl sample_request) \<and> is_string (baseUrl sample_request)"
  by (simp_all add: validate_def sample_request_def)

lemma after_reasoning_chunk:
  "read_loop (openai_process_line sample_engine both_callbacks) start []
     (map plain [sse ''{\"choices\":[{\"delta\":{\"reasoning\":\"hmm\"}}]}''])
   = (Normal, start\<lparr>fullReasoning := ''hmm'',
                       calls := [OnReasoningChunk (Str ''hmm'') ''hmm'']\<rparr>)"
  by code_simp

theorem C7_witness:
  "calls (openai_sendStreamingMessage sample_engine both_callbacks sample_request
            (ok_response
               [plain (sse ''{\"choices\":[{\"delta\":{\"reasoning\":\"hmm\"}}]}''),
                \<lparr>aborted_before = False,
                 read_result = Rejects (JsError ''AbortError'' ''The user aborted a request.''),
                 aborted_after = False\<rparr>]))
     = [OnReasoningChunk (Str ''hmm'') ''hmm'', OnReasoningChunk (Str []) ''hmm'',
        OnReasoningComplete, OnComplete []]"
proof -
  let ?step = "\<lparr>aborted_before = False,
                 read_result = Rejects (JsError ''AbortError'' ''The user aborted a request.''),
                 aborted_after = False\<rparr>"
  have c: "aborted_before ?step
           \<or> read_result ?step = Rejects (JsError ''AbortError'' ''The user aborted a request.'')
             \<and> name (JsError ''AbortError'' ''The user aborted a request.'') = ''AbortError''"
    by simp
  from C7_cancellation_completes
         [OF disjI1 [OF refl] sample_request_valid after_reasoning_chunk c, of "[]"]
  show ?thesis by (simp add: both_callbacks_def)
qed

text \<open>
  The claim as stated fails when the cancellation is seen through the abort flag: the
  reasoning is marked complete, but \<open>onReasoningChunk('', fullReasoning)\<close> is not called.
\<close>

lemma flag_cancellation_calls:
  "calls (openai_sendStreamingMessage sample_engine both_callbacks sample_request
            (ok_response
               [\<lparr>aborted_before = False,
                 read_result = Value (sse ''{\"choices\":[{\"delta\":{\"reasoning\":\"hmm\"}}]}''),
                 aborted_after = True\<rparr>]))
     = [OnReasoningChunk (Str ''hmm'') ''hmm'', OnReasoningComplete, OnComplete []]"
  by code_simp

theorem C7_flag_cancellation_counterexample:
  "calls (openai_sendStreamingMessage sample_engine both_callbacks sample_request
            (ok_response
               [\<lparr>aborted_before = False,
                 read_result = Value (sse ''{\"choices\":[{\"delta\":{\"reasoning\":\"hmm\"}}]}''),
                 aborted_after = True\<rparr>]))
     = [OnReasoningChunk (Str ''hmm'') ''hmm'', OnReasoningComplete, OnComplete []]
   \<and> OnReasoningChunk (Str []) ''hmm''
       \<notin> set (calls (openai_sendStreamingMessage sample_engine both_callbacks sample_request
                 (ok_response
                    [\<lparr>aborted_before = False,
                      read_result = Value (sse ''{\"choices\":[{\"delta\":{\"reasoning\":\"hmm\"}}]}''),
                      aborted_after = True\<rparr>])))"
  by (simp add: flag_cancellation_calls)

section \<open>Synthetic streams: the lines of a stream, whatever its chunks\<close>

lemma split_nl_line:
  "newline \<notin> set l \<Longrightarrow> split_nl (l @ newline # rest) = l # split_nl rest"
  by (induction l) (auto simp: Let_def)

lemma split_nl_sse:
  "newline \<notin> set p \<Longrightarrow> split_nl (sse p @ rest) = (''data: '' @ p) # [] # split_nl rest"
proof -
  assume "newline \<notin> set p"
  then have n: "newline \<notin> set (''data: '' @ p)" by (simp add: newline_def)
  have "sse p @ rest = (''data: '' @ p) @ newline # ([] @ newline # rest)"
    by (simp add: sse_def)
  then show ?thesis
    using split_nl_line [OF n] split_nl_line [of "[]"] by simp
qed

lemma split_nl_stream:
  "list_all (\<lambda>it. newline \<notin> set (fst it)) items \<Longrightarrow>
   split_nl (stream_of items @ rest) = lines_of items @ split_nl rest"
proof (induction items)
  case Nil
  show ?case by (simp add: stream_of_def lines_of_def)
next
  case (Cons it items)
  then have "split_nl (sse (fst it) @ (stream_of items @ rest))
             = (''data: '' @ fst it) # [] # (lines_of items @ split_nl rest)"
    by (simp add: split_nl_sse)
  then show ?case by (simp add: stream_of_def lines_of_def)
qed

lemma butlast_split_nl_stream:
  assumes "list_all (\<lambda>it. newline \<notin> set (fst it)) items"
  shows "butlast (split_nl (stream_of items)) = lines_of items"
  using split_nl_stream [OF assms, of "[]"] by simp

lemma for_lines_benign:
  "list_all (benign proc) ls \<Longrightarrow> plain_content s \<Longrightarrow>
   for_lines proc s ls = (Normal, foldl (\<lambda>s l. snd (proc s l)) s ls)
   \<and> plain_content (foldl (\<lambda>s l. snd (proc s l)) s ls)"
proof (induction ls arbitrary: s)
  case Nil
  then show ?case by simp
next
  case (Cons l ls)
  from Cons.prems have b: "fst (proc s l) = Normal" "plain_content (snd (proc s l))"
    by (simp_all add: benign_def)
  from Cons.prems have "list_all (benign proc) ls" by simp
  from Cons.IH [OF this b(2)] b(1) show ?case
    by (cases "proc s l") simp
qed

lemma read_loop_benign:
  "list_all (benign proc) (butlast (split_nl (buf @ concat cs))) \<Longrightarrow> plain_content s
   \<Longrightarrow> newline \<notin> set buf
   \<Longrightarrow> read_loop proc s buf (map plain cs)
       = (Normal, foldl (\<lambda>s l. snd (proc s l)) s (butlast (split_nl (buf @ concat cs))))"
proof (induction cs arbitrary: s buf)
  case Nil
  then show ?case by (simp add: split_nl_no_newline)
next
  case (Cons c cs)
  let ?ls = "butlast (split_nl (buf @ c))"
  let ?buf' = "last (split_nl (buf @ c))"
  let ?f = "\<lambda>s l. snd (proc s l)"
  have sp: "split_nl (buf @ concat (c # cs)) = ?ls @ split_nl (?buf' @ concat cs)"
    using split_nl_append [of "buf @ c" "concat cs"] by simp
  have all: "butlast (split_nl (buf @ concat (c # cs))) = ?ls @ butlast (split_nl (?buf' @ concat cs))"
    unfolding sp by (simp add: butlast_append split_nl_not_Nil)
  with Cons.prems(1) have b1: "list_all (benign proc) ?ls"
    and b2: "list_all (benign proc) (butlast (split_nl (?buf' @ concat cs)))"
    by simp_all
  from for_lines_benign [OF b1 Cons.prems(2)]
  have fl: "for_lines proc s ?ls = (Normal, foldl ?f s ?ls)" and pc: "plain_content (foldl ?f s ?ls)"
    by simp_all
  have "read_loop proc (foldl ?f s ?ls) ?buf' (map plain cs)
          = (Normal, foldl ?f (foldl ?f s ?ls) (butlast (split_nl (?buf' @ concat cs))))"
    by (rule Cons.IH [OF b2 pc last_split_nl_no_newline])
  then show ?case
    unfolding all by (simp add: split_buffer_eq fl)
qed

lemma delivered_Nil [simp]: "delivered s [] = s"
  by (simp add: delivered_def)

lemma delivered_Cons: "delivered (content_chunk (Str t) s) ts = delivered s (t # ts)"
  by (simp add: delivered_def content_chunk_def)

lemma plain_content_chunk: "plain_content s \<Longrightarrow> plain_content (content_chunk v s)"
  by (simp add: plain_content_def content_chunk_def)

lemma item_line_benign:
  "item_line proc it \<Longrightarrow> benign proc (''data: '' @ fst it)"
  by (cases "snd it")
     (auto simp: item_line_def benign_def quiet_line_def content_line_def plain_content_chunk)

lemma quiet_line_benign: "quiet_line proc l \<Longrightarrow> benign proc l"
  by (simp add: benign_def quiet_line_def)

lemma lines_of_benign:
  "list_all (item_line proc) items \<Longrightarrow> quiet_line proc [] \<Longrightarrow>
   list_all (benign proc) (lines_of items)"
proof (induction items)
  case Nil
  show ?case by (simp add: lines_of_def)
next
  case (Cons it items)
  from Cons.prems have "item_line proc it" by simp
  from item_line_benign [OF this] quiet_line_benign [OF Cons.prems(2)] Cons
  show ?case by (simp add: lines_of_def)
qed

lemma foldl_lines_of:
  "list_all (item_line proc) items \<Longrightarrow> quiet_line proc [] \<Longrightarrow> plain_content s \<Longrightarrow>
   foldl (\<lambda>s l. snd (proc s l)) s (lines_of items) = delivered s (texts_of items)"
proof (induction items arbitrary: s)
  case Nil
  show ?case by (simp add: lines_of_def texts_of_def map_filter_simps)
next
  case (Cons it items)
  let ?f = "\<lambda>s l. snd (proc s l)"
  have q: "\<And>s. proc s [] = (Normal, s)" using Cons.prems(2) by (simp add: quiet_line_def)
  have l: "lines_of (it # items) = (''data: '' @ fst it) # [] # lines_of items"
    by (simp add: lines_of_def)
  from Cons.prems(1) have il: "item_line proc it" and rest: "list_all (item_line proc) items"
    by simp_all
  show ?case
  proof (cases "snd it")
    case None
    with il have "proc s (''data: '' @ fst it) = (Normal, s)"
      by (simp add: item_line_def quiet_line_def)
    then have "foldl ?f s (lines_of (it # items)) = foldl ?f s (lines_of items)"
      unfolding l by (simp add: q)
    also have "\<dots> = delivered s (texts_of items)"
      by (rule Cons.IH [OF rest Cons.prems(2,3)])
    finally show ?thesis using None by (simp add: texts_of_def map_filter_simps)
  next
    case (Some t)
    with il Cons.prems(3) have "proc s (''data: '' @ fst it) = (Normal, content_chunk (Str t) s)"
      by (simp add: item_line_def content_line_def)
    then have "foldl ?f s (lines_of (it # items))
                 = foldl ?f (content_chunk (Str t) s) (lines_of items)"
      unfolding l by (simp add: q)
    also have "\<dots> = delivered (content_chunk (Str t) s) (texts_of items)"
      by (rule Cons.IH [OF rest Cons.prems(2) plain_content_chunk [OF Cons.prems(3)]])
    finally show ?thesis using Some by (simp add: texts_of_def map_filter_simps delivered_Cons)
  qed
qed

lemma item_line_newline:
  "list_all (item_line proc) items \<Longrightarrow> list_all (\<lambda>it. newline \<notin> set (fst it)) items"
  by (induction items) (simp_all add: item_line_def)

lemma plain_content_start: "plain_content start"
  by (simp add: plain_content_def)

lemma synthetic_read_loop:
  assumes items: "list_all (item_line proc) items" and q: "quiet_line proc []"
    and chunks: "concat chunks = stream_of items"
  shows "read_loop proc start [] (map plain chunks) = (Normal, delivered start (texts_of items))"
proof -
  have ls: "butlast (split_nl (concat chunks)) = lines_of items"
    using butlast_split_nl_stream [OF item_line_newline [OF items]] chunks by simp
  have "read_loop proc start [] (map plain chunks)
          = (Normal, foldl (\<lambda>s l. snd (proc s l)) start (butlast (split_nl (concat chunks))))"
    using read_loop_benign [where buf = "[]" and cs = chunks and proc = proc and s = start]
      lines_of_benign [OF items q] plain_content_start
    by (simp add: ls)
  then show ?thesis
    unfolding ls by (simp add: foldl_lines_of [OF items q plain_content_start])
qed

lemma synthetic_session:
  assumes items: "list_all (item_line proc) items" and q: "quiet_line proc []"
    and chunks: "concat chunks = stream_of items"
  shows "calls (try_catch (catch_block n1 n2 cb)
                  (stream_response proc cb (ok_response (map plain chunks)) start))
         = content_events [] (texts_of items) @ [OnComplete (concat (texts_of items))]"
  by (simp add: synthetic_read_loop [OF assms] delivered_def after_loop_calls)

lemma trim_clean: "clean p \<Longrightarrow> trim (''data: '' @ p) = ''data: '' @ p"
proof -
  assume c: "clean p"
  then have p: "p \<noteq> []" and sp: "\<not> is_space (last p)"
    by (simp_all add: clean_def)
  from p have "hd (rev (''data: '' @ p)) = last p"
    by (simp add: hd_append hd_rev)
  with sp have "dropWhile is_space (rev (''data: '' @ p)) = rev (''data: '' @ p)"
    by (simp only: dropWhile_eq_self_iff) simp
  moreover have "dropWhile is_space (''data: '' @ p) = ''data: '' @ p"
    by (simp add: is_space_def)
  ultimately show ?thesis by (simp add: trim_def)
qed

lemma trim_Nil [simp]: "trim [] = []"
  by (simp add: trim_def)

lemma openai_empty_line: "quiet_line (openai_process_line E cb) []"
  by (simp add: quiet_line_def openai_process_line_def)

lemma anthropic_empty_line: "quiet_line (anthropic_process_line E cb) []"
  by (simp add: quiet_line_def anthropic_process_line_def)

lemma gemini_empty_line: "quiet_line (gemini_process_line E cb) []"
  by (simp add: quiet_line_def gemini_process_line_def)

lemma unparsed_line_openai:
  "JSON_parse E (drop 6 (trim l)) = None \<Longrightarrow> quiet_line (openai_process_line E cb) l"
  by (simp add: quiet_line_def openai_process_line_def Let_def)

lemma unparsed_line_anthropic:
  "JSON_parse E (drop 6 (trim l)) = None \<Longrightarrow> quiet_line (anthropic_process_line E cb) l"
  by (simp add: quiet_line_def anthropic_process_line_def Let_def)

lemma unparsed_line_gemini:
  "JSON_parse E (drop 6 (trim l)) = None \<Longrightarrow> quiet_line (gemini_process_line E cb) l"
  by (simp add: quiet_line_def gemini_process_line_def Let_def)

lemma close_reasoning_plain: "plain_content s \<Longrightarrow> close_reasoning cb s = s"
  by (simp add: close_reasoning_def plain_content_def)

lemma openai_content_frame:
  "plain_content s \<Longrightarrow> t \<noteq> [] \<Longrightarrow>
   openai_frame cb (content_frame t) s = (Normal, content_chunk (Str t) s)"
  by (simp add: openai_frame_def content_frame_def opt_prop_def openai_reasoning_text_def
        openai_text_def openai_media_def images_of_def close_reasoning_plain)

lemma anthropic_content_frame:
  "plain_content s \<Longrightarrow> t \<noteq> [] \<Longrightarrow>
   anthropic_frame cb (text_delta t) s = (Normal, content_chunk (Str t) s)"
  by (simp add: anthropic_frame_def text_delta_def opt_prop_def content_block_delta_def
        close_reasoning_def plain_content_def)

lemma gemini_content_frame:
  "plain_content s \<Longrightarrow> t \<noteq> [] \<Longrightarrow>
   gemini_frame E cb (parts_frame [text_part t]) s = (Normal, content_chunk (Str t) s)"
  by (simp add: gemini_frame_def gemini_candidates_def parts_frame_def text_part_def opt_prop_def
        close_reasoning_plain)

lemma anthropic_stop_frame: "anthropic_frame cb message_stop s = (Normal, s)"
  by (simp add: anthropic_frame_def message_stop_def)

lemma gemini_stop_frame: "gemini_frame E cb stop_frame s = (Normal, s)"
  by (simp add: gemini_frame_def gemini_candidates_def stop_frame_def opt_prop_def)

lemma data_line:
  "clean p \<Longrightarrow> trim (''data: '' @ p) \<noteq> [] \<and> \<not> startsWith (trim (''data: '' @ p)) '':''
     \<and> \<not> startsWith (trim (''data: '' @ p)) ''event: ''
     \<and> startsWith (trim (''data: '' @ p)) ''data: '' \<and> drop 6 (trim (''data: '' @ p)) = p"
  using trim_clean [of p] by (simp add: startsWith_def)

lemma openai_content_line:
  "clean p \<Longrightarrow> p \<noteq> ''[DONE]'' \<Longrightarrow> JSON_parse E p = Some (content_frame t) \<Longrightarrow> t \<noteq> []
   \<Longrightarrow> content_line (openai_process_line E cb) (''data: '' @ p) t"
  using data_line [of p]
  by (simp add: content_line_def openai_process_line_def Let_def openai_content_frame
           del: append.simps)

lemma anthropic_content_line:
  "clean p \<Longrightarrow> JSON_parse E p = Some (text_delta t) \<Longrightarrow> t \<noteq> []
   \<Longrightarrow> content_line (anthropic_process_line E cb) (''data: '' @ p) t"
  using data_line [of p]
  by (simp add: content_line_def anthropic_process_line_def Let_def anthropic_content_frame
           del: append.simps)

lemma gemini_content_line:
  "clean p \<Longrightarrow> JSON_parse E p = Some (parts_frame [text_part t]) \<Longrightarrow> t \<noteq> []
   \<Longrightarrow> content_line (gemini_process_line E cb) (''data: '' @ p) t"
  using data_line [of p]
  by (simp add: content_line_def gemini_process_line_def Let_def gemini_content_frame
           del: append.simps)

lemma openai_done_quiet: "quiet_line (openai_process_line E cb) (''data: '' @ ''[DONE]'')"
  using openai_done_line [of "''data: '' @ ''[DONE]''"] trim_done
  by (simp add: quiet_line_def)

lemma anthropic_stop_line:
  "clean p \<Longrightarrow> JSON_parse E p = Some message_stop
   \<Longrightarrow> quiet_line (anthropic_process_line E cb) (''data: '' @ p)"
  using data_line [of p]
  by (simp add: quiet_line_def anthropic_process_line_def Let_def anthropic_stop_frame
           del: append.simps)

lemma gemini_stop_line:
  "clean p \<Longrightarrow> JSON_parse E p = Some stop_frame
   \<Longrightarrow> quiet_line (gemini_process_line E cb) (''data: '' @ p)"
  using data_line [of p]
  by (simp add: quiet_line_def gemini_process_line_def Let_def gemini_stop_frame
           del: append.simps)

lemma openai_finish_frame:
  "reason \<noteq> [] \<Longrightarrow> openai_frame cb (finish_frame reason) s = (Break, s)"
  by (simp add: openai_frame_def finish_frame_def opt_prop_def openai_reasoning_text_def
        openai_text_def openai_media_def images_of_def)

lemma openai_finish_line:
  "clean p \<Longrightarrow> p \<noteq> ''[DONE]'' \<Longrightarrow> JSON_parse E p = Some (finish_frame reason) \<Longrightarrow> reason \<noteq> []
   \<Longrightarrow> idle (openai_process_line E cb) (''data: '' @ p)"
  using data_line [of p]
  by (simp add: idle_def openai_process_line_def Let_def openai_finish_frame
           del: append.simps)

section \<open>C3 and C9: content streams, and a malformed line among them\<close>

lemma stream_of_append: "stream_of (xs @ ys) = stream_of xs @ stream_of ys"
  by (simp add: stream_of_def)

lemma texts_of_append: "texts_of (xs @ ys) = texts_of xs @ texts_of ys"
  by (simp add: texts_of_def map_filter_def)

lemma frames_stream:
  "length payloads = length texts \<Longrightarrow> stream_of (frames payloads texts) = concat (map sse payloads)"
  by (induction payloads texts rule: list_induct2) (simp_all add: frames_def stream_of_def)

lemma stream_of_simps [simp]:
  "stream_of [] = []" "stream_of (it # items) = sse (fst it) @ stream_of items"
  by (simp_all add: stream_of_def)

lemma texts_of_simps [simp]:
  "texts_of [] = []" "texts_of ((p, None) # items) = texts_of items"
  "texts_of ((p, Some t) # items) = t # texts_of items"
  by (simp_all add: texts_of_def map_filter_simps)

lemma frames_texts:
  "length payloads = length texts \<Longrightarrow> texts_of (frames payloads texts) = texts"
  by (induction payloads texts rule: list_induct2)
     (simp_all add: frames_def texts_of_def map_filter_simps)

lemma frames_lines:
  assumes "list_all2 (\<lambda>p t. newline \<notin> set p \<and> content_line proc (''data: '' @ p) t) payloads texts"
  shows "list_all (item_line proc) (frames payloads texts)"
  using assms
  by (induction payloads texts rule: list_all2_induct)
     (simp_all add: frames_def item_line_def del: append.simps)

lemma quiet_item: "newline \<notin> set p \<Longrightarrow> quiet_line proc (''data: '' @ p) \<Longrightarrow> item_line proc (p, None)"
  by (simp add: item_line_def)

lemma clean_newline: "clean p \<Longrightarrow> newline \<notin> set p"
  by (simp add: clean_def)

lemma quiet_line_idle: "quiet_line proc l \<Longrightarrow> idle proc l"
  by (simp add: quiet_line_def idle_def)

lemma for_lines_idle: "list_all (idle proc) ls \<Longrightarrow> for_lines proc s ls = (Normal, s)"
proof (induction ls)
  case Nil
  show ?case by simp
next
  case (Cons l ls)
  then have "proc s l = (Normal, s) \<or> proc s l = (Break, s)" by (simp add: idle_def)
  with Cons show ?case by auto
qed

lemma for_lines_benign_idle:
  "list_all (benign proc) bs \<Longrightarrow> list_all (idle proc) ids \<Longrightarrow> plain_content s \<Longrightarrow>
   for_lines proc s (bs @ ids) = (Normal, foldl (\<lambda>s l. snd (proc s l)) s bs)
   \<and> plain_content (foldl (\<lambda>s l. snd (proc s l)) s bs)"
proof (induction bs arbitrary: s)
  case Nil
  then show ?case by (simp add: for_lines_idle)
next
  case (Cons l bs)
  from Cons.prems have b: "fst (proc s l) = Normal" "plain_content (snd (proc s l))"
    by (simp_all add: benign_def)
  from Cons.prems have "list_all (benign proc) bs" by simp
  from Cons.IH [OF this Cons.prems(2) b(2)] b(1) show ?case
    by (cases "proc s l") simp
qed

lemma read_loop_closing:
  "butlast (split_nl (buf @ concat cs)) = bs @ ids \<Longrightarrow> list_all (benign proc) bs
   \<Longrightarrow> list_all (idle proc) ids \<Longrightarrow> plain_content s \<Longrightarrow> newline \<notin> set buf
   \<Longrightarrow> read_loop proc s buf (map plain cs) = (Normal, foldl (\<lambda>s l. snd (proc s l)) s bs)"
proof (induction cs arbitrary: s buf bs ids)
  case Nil
  then show ?case by (simp add: split_nl_no_newline)
next
  case (Cons c cs)
  let ?ls = "butlast (split_nl (buf @ c))"
  let ?buf' = "last (split_nl (buf @ c))"
  let ?rest = "butlast (split_nl (?buf' @ concat cs))"
  let ?f = "\<lambda>s l. snd (proc s l)"
  have sp: "split_nl (buf @ concat (c # cs)) = ?ls @ split_nl (?buf' @ concat cs)"
    using split_nl_append [of "buf @ c" "concat cs"] by simp
  have "butlast (split_nl (buf @ concat (c # cs))) = ?ls @ ?rest"
    unfolding sp by (simp add: butlast_append split_nl_not_Nil)
  with Cons.prems(1) have "?ls @ ?rest = bs @ ids" by simp
  then obtain us where "?ls = bs @ us \<and> us @ ?rest = ids \<or> ?ls @ us = bs \<and> ?rest = us @ ids"
    by (auto simp: append_eq_append_conv2)
  then show ?case
  proof
    assume a: "?ls = bs @ us \<and> us @ ?rest = ids"
    with Cons.prems(3) have i1: "list_all (idle proc) us" and i2: "list_all (idle proc) ?rest"
      by auto
    from for_lines_benign_idle [OF Cons.prems(2) i1 Cons.prems(4)] a
    have fl: "for_lines proc s ?ls = (Normal, foldl ?f s bs)" and pc: "plain_content (foldl ?f s bs)"
      by simp_all
    have "read_loop proc (foldl ?f s bs) ?buf' (map plain cs)
            = (Normal, foldl ?f (foldl ?f s bs) [])"
      by (rule Cons.IH [where bs = "[]", OF _ _ i2 pc last_split_nl_no_newline]) simp_all
    then show ?thesis by (simp add: split_buffer_eq fl)
  next
    assume b: "?ls @ us = bs \<and> ?rest = us @ ids"
    with Cons.prems(2) have b1: "list_all (benign proc) ?ls" and b2: "list_all (benign proc) us"
      by auto
    from for_lines_benign_idle [OF b1 _ Cons.prems(4), of "[]"]
    have fl: "for_lines proc s ?ls = (Normal, foldl ?f s ?ls)" and pc: "plain_content (foldl ?f s ?ls)"
      by simp_all
    have "read_loop proc (foldl ?f s ?ls) ?buf' (map plain cs)
            = (Normal, foldl ?f (foldl ?f s ?ls) us)"
      using b by (intro Cons.IH [OF _ b2 Cons.prems(3) pc last_split_nl_no_newline]) simp
    moreover have "foldl ?f (foldl ?f s ?ls) us = foldl ?f s bs"
      using b by (metis foldl_append)
    ultimately show ?thesis by (simp add: split_buffer_eq fl)
  qed
qed

text \<open>A stream of content frames closed by a frame that only ends the stream.\<close>

lemma closed_stream_session:
  assumes fr: "list_all2 (\<lambda>p t. newline \<notin> set p \<and> content_line proc (''data: '' @ p) t) payloads texts"
    and fin: "newline \<notin> set finish" "idle proc (''data: '' @ finish)"
    and q: "quiet_line proc []"
    and chunks: "concat chunks = concat (map sse payloads) @ sse finish"
  shows "calls (try_catch (catch_block n1 n2 cb)
                  (stream_response proc cb (ok_response (map plain chunks)) start))
         = content_events [] texts @ [OnComplete (concat texts)]"
proof -
  let ?items = "frames payloads texts"
  let ?f = "\<lambda>s l. snd (proc s l)"
  from fr have len: "length payloads = length texts" by (rule list_all2_lengthD)
  have il: "list_all (item_line proc) ?items" by (rule frames_lines [OF fr])
  have nl: "list_all (\<lambda>it. newline \<notin> set (fst it)) ?items" by (rule item_line_newline [OF il])
  have "concat chunks = stream_of ?items @ sse finish"
    using chunks by (simp add: frames_stream [OF len])
  then have "split_nl (concat chunks) = lines_of ?items @ split_nl (sse finish @ [])"
    using split_nl_stream [OF nl, of "sse finish"] by simp
  also have "split_nl (sse finish @ []) = [''data: '' @ finish, [], []]"
    using split_nl_sse [OF fin(1), of "[]"] by simp
  finally have ls: "butlast (split_nl ([] @ concat chunks)) = lines_of ?items @ [''data: '' @ finish, []]"
    by (simp add: butlast_append)
  have ids: "list_all (idle proc) [''data: '' @ finish, []]"
    using fin(2) quiet_line_idle [OF q] by simp
  have "read_loop proc start [] (map plain chunks) = (Normal, foldl ?f start (lines_of ?items))"
    using ls lines_of_benign [OF il q] ids plain_content_start
    by (rule read_loop_closing) simp
  then have "read_loop proc start [] (map plain chunks) = (Normal, delivered start texts)"
    by (simp add: foldl_lines_of [OF il q plain_content_start] frames_texts [OF len])
  then show ?thesis by (simp add: delivered_def after_loop_calls)
qed

text \<open>Two runs of content frames with a quiet line between them.\<close>

lemma interrupted_stream_session:
  assumes fr1: "list_all2 (\<lambda>p t. newline \<notin> set p \<and> content_line proc (''data: '' @ p) t) payloads1 texts1"
    and fr2: "list_all2 (\<lambda>p t. newline \<notin> set p \<and> content_line proc (''data: '' @ p) t) payloads2 texts2"
    and bad: "newline \<notin> set bad" "quiet_line proc (''data: '' @ bad)"
    and q: "quiet_line proc []"
    and chunks: "concat chunks = concat (map sse payloads1) @ sse bad @ concat (map sse payloads2)"
  shows "calls (try_catch (catch_block n1 n2 cb)
                  (stream_response proc cb (ok_response (map plain chunks)) start))
         = content_events [] (texts1 @ texts2) @ [OnComplete (concat (texts1 @ texts2))]"
proof -
  let ?items = "frames payloads1 texts1 @ [(bad, None)] @ frames payloads2 texts2"
  from fr1 have len1: "length payloads1 = length texts1" by (rule list_all2_lengthD)
  from fr2 have len2: "length payloads2 = length texts2" by (rule list_all2_lengthD)
  have il: "list_all (item_line proc) ?items"
    using frames_lines [OF fr1] frames_lines [OF fr2] quiet_item [OF bad] by simp
  have st: "concat chunks = stream_of ?items"
    using chunks
    by (simp add: stream_of_append frames_stream [OF len1] frames_stream [OF len2])
  have tx: "texts_of ?items = texts1 @ texts2"
    by (simp add: texts_of_append frames_texts [OF len1] frames_texts [OF len2])
  from synthetic_session [OF il q st, of n1 n2 cb] show ?thesis by (simp only: tx)
qed

lemma content_events_chunks: "filter is_chunk (content_events acc ts) = content_events acc ts"
  by (induction ts arbitrary: acc) simp_all

lemma content_events_length: "length (content_events acc ts) = length ts"
  by (induction ts arbitrary: acc) simp_all

lemma content_events_nth:
  "i < length ts \<Longrightarrow>
   content_events acc ts ! i = OnChunk (Str (ts ! i)) (acc @ concat (take (Suc i) ts))"
proof (induction ts arbitrary: acc i)
  case Nil
  then show ?case by simp
next
  case (Cons t ts)
  then show ?case by (cases i) simp_all
qed

lemma openai_valid:
  "validate rq = None \<Longrightarrow> truthy (baseUrl rq) \<and> is_string (baseUrl rq) \<Longrightarrow>
   openai_sendStreamingMessage E cb rq conn =
     try_catch
       (catch_block
          ''Network error: Unable to connect to the API. Please check your internet connection.''
          ''Invalid response from API. Please try again.'' cb)
       (stream_response (openai_process_line E cb) cb conn start)"
  by (simp add: openai_sendStreamingMessage_def)

lemma anthropic_valid:
  "validate rq = None \<Longrightarrow>
   anthropic_sendStreamingMessage E cb rq conn =
     try_catch
       (catch_block
          ''Network error: Unable to connect to the Anthropic API. Please check your internet connection.''
          ''Invalid response from Anthropic API. Please try again.'' cb)
       (stream_response (anthropic_process_line E cb) cb conn start)"
  by (simp add: anthropic_sendStreamingMessage_def)

lemma gemini_valid:
  "validate rq = None \<Longrightarrow>
   gemini_sendStreamingMessage E cb rq conn =
     try_catch
       (catch_block
          ''Network error: Unable to connect to Gemini API. Please check your internet connection.''
          ''Invalid response from Gemini API. Please try again.'' cb)
       (stream_response (gemini_process_line E cb) cb conn start)"
  by (simp add: gemini_sendStreamingMessage_def)

lemma openai_frames:
  "list_all2 (\<lambda>p t. clean p \<and> p \<noteq> ''[DONE]'' \<and> JSON_parse E p = Some (content_frame t) \<and> t \<noteq> [])
     payloads texts
   \<Longrightarrow> list_all2 (\<lambda>p t. newline \<notin> set p
                        \<and> content_line (openai_process_line E cb) (''data: '' @ p) t) payloads texts"
  by (erule list_all2_mono) (simp add: clean_newline openai_content_line del: append.simps)

lemma anthropic_frames:
  "list_all2 (\<lambda>p t. clean p \<and> p \<noteq> ''[DONE]'' \<and> JSON_parse E p = Some (text_delta t) \<and> t \<noteq> [])
     payloads texts
   \<Longrightarrow> list_all2 (\<lambda>p t. newline \<notin> set p
                        \<and> content_line (anthropic_process_line E cb) (''data: '' @ p) t) payloads texts"
  by (erule list_all2_mono) (simp add: clean_newline anthropic_content_line del: append.simps)

lemma gemini_frames:
  "list_all2 (\<lambda>p t. clean p \<and> p \<noteq> ''[DONE]''
                \<and> JSON_parse E p = Some (parts_frame [text_part t]) \<and> t \<noteq> [])
     payloads texts
   \<Longrightarrow> list_all2 (\<lambda>p t. newline \<notin> set p
                        \<and> content_line (gemini_process_line E cb) (''data: '' @ p) t) payloads texts"
  by (erule list_all2_mono) (simp add: clean_newline gemini_content_line del: append.simps)

lemma done_newline: "newline \<notin> set ''[DONE]''"
  by (simp add: newline_def)

text \<open>
  C3. For each adapter, a stream of \<open>N\<close> frames that each carry one non-empty content
  delta, followed by a finish frame (\<open>[DONE]\<close> or a choice with a \<open>finish_reason\<close>,
  \<open>message_stop\<close>, a candidate with \<open>finishReason\<close> \<open>STOP\<close>), however it is cut into
  chunks, makes exactly the calls \<open>onChunk(t\<^sub>1, t\<^sub>1)\<close>, \<open>onChunk(t\<^sub>2, t\<^sub>1t\<^sub>2)\<close>, ..., each
  accumulated text extending the previous one by the delta, and then \<open>onComplete\<close> once, on
  the whole text.
\<close>

theorem C3_content_stream:
  assumes "send = openai_sendStreamingMessage E cb \<and> frame = content_frame
             \<and> (finish = ''[DONE]''
                \<or> clean finish \<and> finish \<noteq> ''[DONE]'' \<and> reason \<noteq> []
                  \<and> JSON_parse E finish = Some (finish_frame reason))
         \<or> send = anthropic_sendStreamingMessage E cb \<and> frame = text_delta
             \<and> clean finish \<and> JSON_parse E finish = Some message_stop
         \<or> send = gemini_sendStreamingMessage E cb \<and> frame = (\<lambda>t. parts_frame [text_part t])
             \<and> clean finish \<and> JSON_parse E finish = Some stop_frame"
    and "validate rq = None" and "truthy (baseUrl rq) \<and> is_string (baseUrl rq)"
    and "list_all2 (\<lambda>p t. clean p \<and> p \<noteq> ''[DONE]'' \<and> JSON_parse E p = Some (frame t) \<and> t \<noteq> [])
           payloads texts"
    and "concat chunks = concat (map sse payloads) @ sse finish"
  shows "calls (send rq (ok_response (map plain chunks)))
           = content_events [] texts @ [OnComplete (concat texts)]
         \<and> length (filter is_chunk (calls (send rq (ok_response (map plain chunks)))))
           = length payloads"
proof -
  from assms(4) have len: "length payloads = length texts" by (rule list_all2_lengthD)
  from assms(1) consider
      (by_marker) "send = openai_sendStreamingMessage E cb" "frame = content_frame"
        "finish = ''[DONE]''"
    | (by_reason) "send = openai_sendStreamingMessage E cb" "frame = content_frame"
        "clean finish" "finish \<noteq> ''[DONE]''" "JSON_parse E finish = Some (finish_frame reason)"
        "reason \<noteq> []"
    | (anthropic) "send = anthropic_sendStreamingMessage E cb" "frame = text_delta"
        "clean finish" "JSON_parse E finish = Some message_stop"
    | (gemini) "send = gemini_sendStreamingMessage E cb" "frame = (\<lambda>t. parts_frame [text_part t])"
        "clean finish" "JSON_parse E finish = Some stop_frame"
    by blast
  then have "calls (send rq (ok_response (map plain chunks)))
               = content_events [] texts @ [OnComplete (concat texts)]"
  proof cases
    case by_marker
    show ?thesis
      unfolding by_marker(1) openai_valid [OF assms(2,3)]
      by (rule closed_stream_session
                 [OF openai_frames [OF assms(4) [unfolded by_marker(2)]] done_newline
                     quiet_line_idle [OF openai_done_quiet] openai_empty_line
                     assms(5) [unfolded by_marker(3)]])
  next
    case by_reason
    show ?thesis
      unfolding by_reason(1) openai_valid [OF assms(2,3)]
      by (rule closed_stream_session
                 [OF openai_frames [OF assms(4) [unfolded by_reason(2)]]
                     clean_newline [OF by_reason(3)] openai_finish_line [OF by_reason(3,4,5,6)]
                     openai_empty_line assms(5)])
  next
    case anthropic
    show ?thesis
      unfolding anthropic(1) anthropic_valid [OF assms(2)]
      by (rule closed_stream_session
                 [OF anthropic_frames [OF assms(4) [unfolded anthropic(2)]]
                     clean_newline [OF anthropic(3)]
                     quiet_line_idle [OF anthropic_stop_line [OF anthropic(3,4)]]
                     anthropic_empty_line assms(5)])
  next
    case gemini
    show ?thesis
      unfolding gemini(1) gemini_valid [OF assms(2)]
      by (rule closed_stream_session
                 [OF gemini_frames [OF assms(4) [unfolded gemini(2)]]
                     clean_newline [OF gemini(3)]
                     quiet_line_idle [OF gemini_stop_line [OF gemini(3,4)]]
                     gemini_empty_line assms(5)])
  qed
  then show ?thesis
    by (simp add: content_events_chunks content_events_length len)
qed

text \<open>
  C9. For each adapter, a \<open>data:\<close> line whose payload \<open>JSON.parse\<close> rejects, between valid
  content frames, is skipped: the frames before and after it are all delivered, in order,
  \<open>onError\<close> is not called and the session completes on the whole text.
\<close>

theorem C9_malformed_line_is_skipped:
  assumes "send = openai_sendStreamingMessage E cb \<and> frame = content_frame
         \<or> send = anthropic_sendStreamingMessage E cb \<and> frame = text_delta
         \<or> send = gemini_sendStreamingMessage E cb \<and> frame = (\<lambda>t. parts_frame [text_part t])"
    and "validate rq = None" and "truthy (baseUrl rq) \<and> is_string (baseUrl rq)"
    and "list_all2 (\<lambda>p t. clean p \<and> p \<noteq> ''[DONE]'' \<and> JSON_parse E p = Some (frame t) \<and> t \<noteq> [])
           payloads1 texts1"
    and "list_all2 (\<lambda>p t. clean p \<and> p \<noteq> ''[DONE]'' \<and> JSON_parse E p = Some (frame t) \<and> t \<noteq> [])
           payloads2 texts2"
    and "newline \<notin> set bad" and "JSON_parse E (drop 6 (trim (''data: '' @ bad))) = None"
    and "concat chunks = concat (map sse payloads1) @ sse bad @ concat (map sse payloads2)"
  shows "calls (send rq (ok_response (map plain chunks)))
           = content_events [] (texts1 @ texts2) @ [OnComplete (concat (texts1 @ texts2))]
         \<and> filter is_error (calls (send rq (ok_response (map plain chunks)))) = []"
proof -
  from assms(1) consider
      (openai) "send = openai_sendStreamingMessage E cb" "frame = content_frame"
    | (anthropic) "send = anthropic_sendStreamingMessage E cb" "frame = text_delta"
    | (gemini) "send = gemini_sendStreamingMessage E cb" "frame = (\<lambda>t. parts_frame [text_part t])"
    by blast
  then have "calls (send rq (ok_response (map plain chunks)))
           = content_events [] (texts1 @ texts2) @ [OnComplete (concat (texts1 @ texts2))]"
  proof cases
    case openai
    show ?thesis
      unfolding openai(1) openai_valid [OF assms(2,3)]
      by (rule interrupted_stream_session
                 [OF openai_frames [OF assms(4) [unfolded openai(2)]]
                     openai_frames [OF assms(5) [unfolded openai(2)]]
                     assms(6) unparsed_line_openai [OF assms(7)] openai_empty_line assms(8)])
  next
    case anthropic
    show ?thesis
      unfolding anthropic(1) anthropic_valid [OF assms(2)]
      by (rule interrupted_stream_session
                 [OF anthropic_frames [OF assms(4) [unfolded anthropic(2)]]
                     anthropic_frames [OF assms(5) [unfolded anthropic(2)]]
                     assms(6) unparsed_line_anthropic [OF assms(7)] anthropic_empty_line assms(8)])
  next
    case gemini
    show ?thesis
      unfolding gemini(1) gemini_valid [OF assms(2)]
      by (rule interrupted_stream_session
                 [OF gemini_frames [OF assms(4) [unfolded gemini(2)]]
                     gemini_frames [OF assms(5) [unfolded gemini(2)]]
                     assms(6) unparsed_line_gemini [OF assms(7)] gemini_empty_line assms(8)])
  qed
  moreover have "filter is_error (content_events acc ts) = []" for acc ts
    by (induction ts arbitrary: acc) simp_all
  ultimately show ?thesis by simp
qed

lemma sample_content_payloads:
  "list_all2 (\<lambda>p t. clean p \<and> p \<noteq> ''[DONE]''
                \<and> JSON_parse sample_engine p = Some (content_frame t) \<and> t \<noteq> [])
     [''{\"choices\":[{\"delta\":{\"content\":\"Hi\"}}]}'',
      ''{\"choices\":[{\"delta\":{\"content\":\" there\"}}]}'']
     [''Hi'', '' there'']"
  by (simp add: clean_def newline_def is_space_def sample_engine_def sample_payloads_def)

lemma sample_finish_payload:
  "clean ''{\"choices\":[{\"delta\":{},\"finish_reason\":\"stop\"}]}''"
  "JSON_parse sample_engine ''{\"choices\":[{\"delta\":{},\"finish_reason\":\"stop\"}]}''
     = Some (finish_frame ''stop'')"
  by (simp_all add: clean_def newline_def is_space_def sample_engine_def sample_payloads_def)

theorem C3_witness:
  "calls (openai_sendStreamingMessage sample_engine both_callbacks sample_request
            (ok_response
               (map plain
                  [''data: {\"choices\":[{\"del'',
                   ''ta\":{\"content\":\"Hi\"}}]}'' @ [newline, newline]
                   @ ''data: {\"choices\":[{\"delta\":{\"content\":\" there\"}}]}'' @ [newline, newline]
                   @ ''data: [DONE]'' @ [newline, newline]])))
     = [OnChunk (Str ''Hi'') ''Hi'', OnChunk (Str '' there'') ''Hi there'', OnComplete ''Hi there'']
   \<and> calls (openai_sendStreamingMessage sample_engine both_callbacks sample_request
            (ok_response
               (map plain
                  [sse ''{\"choices\":[{\"delta\":{\"content\":\"Hi\"}}]}'',
                   sse ''{\"choices\":[{\"delta\":{\"content\":\" there\"}}]}''
                   @ sse ''{\"choices\":[{\"delta\":{},\"finish_reason\":\"stop\"}]}''])))
     = [OnChunk (Str ''Hi'') ''Hi'', OnChunk (Str '' there'') ''Hi there'', OnComplete ''Hi there'']"
proof -
  have a: "openai_sendStreamingMessage sample_engine both_callbacks
             = openai_sendStreamingMessage sample_engine both_callbacks
           \<and> content_frame = content_frame
           \<and> (''[DONE]'' = ''[DONE]''
              \<or> clean ''[DONE]'' \<and> ''[DONE]'' \<noteq> ''[DONE]'' \<and> ''stop'' \<noteq> []
                \<and> JSON_parse sample_engine ''[DONE]'' = Some (finish_frame ''stop''))
           \<or> openai_sendStreamingMessage sample_engine both_callbacks
             = anthropic_sendStreamingMessage sample_engine both_callbacks
             \<and> content_frame = text_delta
             \<and> clean ''[DONE]'' \<and> JSON_parse sample_engine ''[DONE]'' = Some message_stop
           \<or> openai_sendStreamingMessage sample_engine both_callbacks
             = gemini_sendStreamingMessage sample_engine both_callbacks
             \<and> content_frame = (\<lambda>t. parts_frame [text_part t])
             \<and> clean ''[DONE]'' \<and> JSON_parse sample_engine ''[DONE]'' = Some stop_frame"
    by (intro disjI1 conjI refl)
  have c: "concat [''data: {\"choices\":[{\"del'',
                   ''ta\":{\"content\":\"Hi\"}}]}'' @ [newline, newline]
                   @ ''data: {\"choices\":[{\"delta\":{\"content\":\" there\"}}]}'' @ [newline, newline]
                   @ ''data: [DONE]'' @ [newline, newline]]
           = concat (map sse [''{\"choices\":[{\"delta\":{\"content\":\"Hi\"}}]}'',
                              ''{\"choices\":[{\"delta\":{\"content\":\" there\"}}]}''])
             @ sse ''[DONE]''"
    by (simp add: sse_def)
  let ?stop = "''{\"choices\":[{\"delta\":{},\"finish_reason\":\"stop\"}]}''"
  have b: "openai_sendStreamingMessage sample_engine both_callbacks
             = openai_sendStreamingMessage sample_engine both_callbacks
           \<and> content_frame = content_frame
           \<and> (?stop = ''[DONE]''
              \<or> clean ?stop \<and> ?stop \<noteq> ''[DONE]'' \<and> ''stop'' \<noteq> []
                \<and> JSON_parse sample_engine ?stop = Some (finish_frame ''stop''))
           \<or> openai_sendStreamingMessage sample_engine both_callbacks
             = anthropic_sendStreamingMessage sample_engine both_callbacks
             \<and> content_frame = text_delta
             \<and> clean ?stop \<and> JSON_parse sample_engine ?stop = Some message_stop
           \<or> openai_sendStreamingMessage sample_engine both_callbacks
             = gemini_sendStreamingMessage sample_engine both_callbacks
             \<and> content_frame = (\<lambda>t. parts_frame [text_part t])
             \<and> clean ?stop \<and> JSON_parse sample_engine ?stop = Some stop_frame"
    using sample_finish_payload by (intro disjI1 conjI disjI2 refl) simp_all
  have d: "concat [sse ''{\"choices\":[{\"delta\":{\"content\":\"Hi\"}}]}'',
                   sse ''{\"choices\":[{\"delta\":{\"content\":\" there\"}}]}'' @ sse ?stop]
           = concat (map sse [''{\"choices\":[{\"delta\":{\"content\":\"Hi\"}}]}'',
                              ''{\"choices\":[{\"delta\":{\"content\":\" there\"}}]}''])
             @ sse ?stop"
    by simp
  from C3_content_stream [OF a sample_request_valid sample_content_payloads c]
       C3_content_stream [OF b sample_request_valid sample_content_payloads d]
  show ?thesis by simp
qed

lemma sample_unparsed:
  "newline \<notin> set ''{oops''"
  "JSON_parse sample_engine (drop 6 (trim (''data: '' @ ''{oops''))) = None"
  by (simp add: newline_def, code_simp)

lemma sample_first_payload:
  "list_all2 (\<lambda>p t. clean p \<and> p \<noteq> ''[DONE]''
                \<and> JSON_parse sample_engine p = Some (content_frame t) \<and> t \<noteq> [])
     [''{\"choices\":[{\"delta\":{\"content\":\"Hi\"}}]}''] [''Hi'']"
  "list_all2 (\<lambda>p t. clean p \<and> p \<noteq> ''[DONE]''
                \<and> JSON_parse sample_engine p = Some (content_frame t) \<and> t \<noteq> [])
     [''{\"choices\":[{\"delta\":{\"content\":\" there\"}}]}''] ['' there'']"
  by (simp_all add: clean_def newline_def is_space_def sample_engine_def sample_payloads_def)

theorem C9_witness:
  "calls (openai_sendStreamingMessage sample_engine both_callbacks sample_request
            (ok_response
               (map plain
                  [sse ''{\"choices\":[{\"delta\":{\"content\":\"Hi\"}}]}'' @ ''data: {oo'',
                   ''ps'' @ [newline, newline]
                   @ sse ''{\"choices\":[{\"delta\":{\"content\":\" there\"}}]}''])))
     = [OnChunk (Str ''Hi'') ''Hi'', OnChunk (Str '' there'') ''Hi there'', OnComplete ''Hi there'']"
proof -
  have a: "openai_sendStreamingMessage sample_engine both_callbacks
             = openai_sendStreamingMessage sample_engine both_callbacks
           \<and> content_frame = content_frame
           \<or> openai_sendStreamingMessage sample_engine both_callbacks
             = anthropic_sendStreamingMessage sample_engine both_callbacks
             \<and> content_frame = text_delta
           \<or> openai_sendStreamingMessage sample_engine both_callbacks
             = gemini_sendStreamingMessage sample_engine both_callbacks
             \<and> content_frame = (\<lambda>t. parts_frame [text_part t])"
    by (intro disjI1 conjI refl)
  have c: "concat [sse ''{\"choices\":[{\"delta\":{\"content\":\"Hi\"}}]}'' @ ''data: {oo'',
                   ''ps'' @ [newline, newline]
                   @ sse ''{\"choices\":[{\"delta\":{\"content\":\" there\"}}]}'']
           = concat (map sse [''{\"choices\":[{\"delta\":{\"content\":\"Hi\"}}]}''])
             @ sse ''{oops''
             @ concat (map sse [''{\"choices\":[{\"delta\":{\"content\":\" there\"}}]}''])"
    by (simp add: sse_def)
  from C9_malformed_line_is_skipped
         [OF a sample_request_valid sample_first_payload sample_unparsed c]
  show ?thesis by simp
qed

section \<open>C10: thinking text without a reasoning callback\<close>

lemma deltas_append [simp]: "deltas (xs @ ys) = deltas xs @ deltas ys"
  by (simp add: deltas_def)

lemma deltas_simps [simp]: "deltas [] = []" "deltas (e # tr) = delta_text e @ deltas tr"
  by (simp_all add: deltas_def)












lemma thinking_without_callback_calls:
  "calls (anthropic_sendStreamingMessage sample_engine content_only_callbacks sample_request
            (ok_response
               [plain (sse ''{\"type\":\"content_block_start\",\"content_block\":{\"type\":\"thinking\"}}''
                       @ sse ''{\"type\":\"content_block_delta\",\"delta\":{\"type\":\"text_delta\",\"text\":\"Hi\"}}'')]))
   = [OnChunk (Str ''Hi'') ''Hi'', OnComplete ''Hi'']"
  by code_simp

end
